theory Spec2Isabelle
  imports Main "HOL-Library.Product_Lexorder" "HOL-Library.Sublist"
begin

section \<open>Strings\<close>

text \<open>
  A Python \<open>str\<close> is a sequence of code points; it is modelled as a \<open>string\<close> in
  which every \<open>char\<close> stands for one code point below 256, so that \<open>length\<close> is
  Python's \<open>len\<close>.
\<close>

definition code :: "char \<Rightarrow> nat" where
  "code c = of_char c"

text \<open>\<open>str.isspace\<close> on one code point below 256: the characters that \<open>str.split()\<close>
  and \<open>str.strip()\<close> treat as whitespace.\<close>

definition isspace :: "char \<Rightarrow> bool" where
  "isspace c = ((9 \<le> code c \<and> code c \<le> 13) \<or> (28 \<le> code c \<and> code c \<le> 32)
                \<or> code c = 133 \<or> code c = 160)"

text \<open>\<open>str.split()\<close> without arguments: the maximal runs of non-whitespace characters.
  \<open>cur\<close> is the word being read.\<close>

fun split_aux :: "string \<Rightarrow> string \<Rightarrow> string list" where
  "split_aux cur [] = (if cur = [] then [] else [cur])"
| "split_aux cur (c # cs) =
     (if isspace c then (if cur = [] then split_aux [] cs else cur # split_aux [] cs)
      else split_aux (cur @ [c]) cs)"

definition split :: "string \<Rightarrow> string list" where
  "split s = split_aux [] s"

text \<open>\<open>sep.join(xs)\<close>.\<close>

fun join :: "string \<Rightarrow> string list \<Rightarrow> string" where
  "join sep [] = []"
| "join sep [x] = x"
| "join sep (x # y # ys) = x @ sep @ join sep (y # ys)"

text \<open>\<open>str.strip()\<close> without arguments.\<close>

definition strip :: "string \<Rightarrow> string" where
  "strip s = rev (dropWhile isspace (rev (dropWhile isspace s)))"

subsection \<open>Line preprocessing\<close>

definition preprocess_line :: "string \<Rightarrow> string" where
  "preprocess_line line = join '' '' (split line)"

section \<open>Visible length and padding\<close>

text \<open>
  \<open>strip_ansi_codes\<close> is \<open>re.sub(p, '', text)\<close> for the pattern \<open>p\<close> that reads: the
  escape character (code 27), one of \<open>[@-_]\<close>, then \<open>[0-?]*\<close>, \<open>[ -/]*\<close> and one of \<open>[@-~]\<close>. The three
  character classes after the first are pairwise disjoint from their successors
  (\<open>[0-?]\<close> is 48..63, \<open>[ -/]\<close> is 32..47, \<open>[@-~]\<close> is 64..126), so backtracking never finds a
  match that the greedy scan misses (lemma \<open>ansi_match_iff\<close> below): \<open>ansi_match\<close> takes
  both starred classes maximally and returns the text after the match. \<open>re.sub\<close> scans from the left, removes a match
  where one starts and otherwise keeps the character and moves on.
\<close>

definition ESC :: char where
  "ESC = CHR 0x1B"

definition in_range :: "nat \<Rightarrow> nat \<Rightarrow> char \<Rightarrow> bool" where
  "in_range lo hi c = (lo \<le> code c \<and> code c \<le> hi)"

definition ansi_match :: "string \<Rightarrow> string option" where
  "ansi_match s =
     (case s of
        e # d # r \<Rightarrow>
          if e = ESC \<and> in_range 64 95 d then
            (case dropWhile (in_range 32 47) (dropWhile (in_range 48 63) r) of
               [] \<Rightarrow> None
             | f # r' \<Rightarrow> if in_range 64 126 f then Some r' else None)
          else None
      | _ \<Rightarrow> None)"

lemma ansi_match_shorter: "ansi_match s = Some r \<Longrightarrow> length r < length s"
proof -
  assume a: "ansi_match s = Some r"
  then obtain e d t where s: "s = e # d # t"
    by (auto simp: ansi_match_def split: list.splits)
  let ?u = "dropWhile (in_range 32 47) (dropWhile (in_range 48 63) t)"
  have "length ?u \<le> length t"
    by (meson length_dropWhile_le le_trans)
  moreover obtain f where "?u = f # r"
    using a s by (auto simp: ansi_match_def split: list.splits if_splits)
  ultimately show ?thesis using s by simp
qed

function strip_ansi_codes :: "string \<Rightarrow> string" where
  "strip_ansi_codes [] = []"
| "strip_ansi_codes (c # cs) =
     (case ansi_match (c # cs) of
        Some r \<Rightarrow> strip_ansi_codes r
      | None \<Rightarrow> c # strip_ansi_codes cs)"
  by pat_completeness auto
termination
  by (relation "measure length") (auto dest: ansi_match_shorter)

definition pad_text :: "string \<Rightarrow> int \<Rightarrow> string" where
  "pad_text text width =
     (let visible_length = int (length (strip_ansi_codes text));
          padding_needed = width - visible_length
      in if padding_needed > 0 then text @ replicate (nat padding_needed) CHR '' '' else text)"

section \<open>Sequence alignment\<close>

text \<open>
  The program aligns lines, and the words of each changed line pair, with
  \<open>difflib.SequenceMatcher(None, a, b).get_opcodes()\<close> of the Python standard library
  (\<open>worddiff.py\<close>, lines 88 and 156). The definitions below follow \<open>Lib/difflib.py\<close> of
  CPython 3.11 method by method, for \<open>isjunk = None\<close> and \<open>autojunk = True\<close>, the values this
  call uses. Indices are natural numbers; a match is the triple \<open>(i, j, k)\<close> saying that
  \<open>a[i:i+k]\<close> equals \<open>b[j:j+k]\<close>.
\<close>

type_synonym match = "nat \<times> nat \<times> nat"

text \<open>
  \<open>__chain_b\<close>: \<open>b2j\<close> maps every element of \<open>b\<close> to the list of the indices where it
  occurs, in increasing order (the loop over \<open>enumerate(b)\<close> with \<open>setdefault\<close> and
  \<open>append\<close>). No element is junk. When \<open>b\<close> has 200 elements or more, the elements that
  occur more than \<open>n // 100 + 1\<close> times are popular and are deleted from \<open>b2j\<close>.
\<close>

definition b2j_build :: "'a list \<Rightarrow> ('a \<rightharpoonup> nat list)" where
  "b2j_build b =
     fold (\<lambda>(i, elt) b2j. b2j(elt \<mapsto> (case b2j elt of None \<Rightarrow> [] | Some indices \<Rightarrow> indices) @ [i]))
       (enumerate 0 b) Map.empty"

definition chain_b :: "'a list \<Rightarrow> ('a \<rightharpoonup> nat list)" where
  "chain_b b =
     (let b2j = b2j_build b; n = length b
      in if n \<ge> 200 then
           (let ntest = n div 100 + 1
            in (\<lambda>elt. case b2j elt of None \<Rightarrow> None
                      | Some idxs \<Rightarrow> if length idxs > ntest then None else Some idxs))
         else b2j)"

text \<open>
  \<open>isbjunk\<close> is membership in \<open>bjunk\<close>, which is the empty set here.
\<close>

definition isbjunk :: "'a \<Rightarrow> bool" where
  "isbjunk x = False"

text \<open>
  \<open>find_longest_match(alo, ahi, blo, bhi)\<close>. \<open>inner_loop\<close> is the loop over
  \<open>b2j.get(a[i], nothing)\<close> for one \<open>i\<close>: an index below \<open>blo\<close> is skipped
  (\<open>continue\<close>), the first index not below \<open>bhi\<close> ends the loop (\<open>break\<close>), and otherwise
  \<open>k = newj2len[j] = j2lenget(j-1, 0) + 1\<close> is stored and replaces the best match when it
  is longer. For \<open>j = 0\<close> the key \<open>j - 1\<close> is \<open>-1\<close>, which is never in the dictionary. The best
  match starts at \<open>i-k+1\<close> and \<open>j-k+1\<close>; \<open>k\<close> never exceeds \<open>i + 1\<close> and \<open>j + 1\<close> (lemma
  \<open>inner_loop_ok\<close> below), so the subtraction on natural numbers is the one on integers.
  \<open>row\<close> is the body of the loop over \<open>i\<close>, with a fresh \<open>newj2len\<close> that becomes \<open>j2len\<close>, and
  \<open>main_loop\<close> that loop over \<open>range(alo, ahi)\<close>, started with best match \<open>(alo, blo, 0)\<close>.
  Every call made by \<open>get_matching_blocks\<close> has \<open>ahi\<close> at most \<open>len(a)\<close> and \<open>bhi\<close> at most
  \<open>len(b)\<close> (lemma \<open>queue_loop_inv\<close>), so \<open>a ! i\<close> and \<open>b ! j\<close> are read in range.
\<close>

fun inner_loop :: "(nat \<rightharpoonup> nat) \<Rightarrow> nat \<Rightarrow> nat \<Rightarrow> nat \<Rightarrow> nat list
                     \<Rightarrow> (nat \<rightharpoonup> nat) \<times> match \<Rightarrow> (nat \<rightharpoonup> nat) \<times> match" where
  "inner_loop j2len i blo bhi [] st = st"
| "inner_loop j2len i blo bhi (j # js) (newj2len, besti, bestj, bestsize) =
     (if j < blo then inner_loop j2len i blo bhi js (newj2len, besti, bestj, bestsize)
      else if j \<ge> bhi then (newj2len, besti, bestj, bestsize)
      else
        let k = (case (if j = 0 then None else j2len (j - 1)) of None \<Rightarrow> 0 | Some v \<Rightarrow> v) + 1
        in if k > bestsize
           then inner_loop j2len i blo bhi js (newj2len(j \<mapsto> k), i + 1 - k, j + 1 - k, k)
           else inner_loop j2len i blo bhi js (newj2len(j \<mapsto> k), besti, bestj, bestsize))"

definition row :: "'a list \<Rightarrow> ('a \<rightharpoonup> nat list) \<Rightarrow> nat \<Rightarrow> nat
                     \<Rightarrow> (nat \<rightharpoonup> nat) \<times> match \<Rightarrow> nat \<Rightarrow> (nat \<rightharpoonup> nat) \<times> match" where
  "row a b2j blo bhi st i =
     inner_loop (fst st) i blo bhi (case b2j (a ! i) of None \<Rightarrow> [] | Some js \<Rightarrow> js)
       (Map.empty, snd st)"

definition main_loop :: "'a list \<Rightarrow> ('a \<rightharpoonup> nat list) \<Rightarrow> nat \<Rightarrow> nat \<Rightarrow> nat \<Rightarrow> nat
                          \<Rightarrow> (nat \<rightharpoonup> nat) \<times> match" where
  "main_loop a b2j alo ahi blo bhi =
     foldl (row a b2j blo bhi) (Map.empty, (alo, blo, 0)) [alo..<ahi]"

text \<open>
  The four \<open>while\<close> loops that extend the best match: first to the left and to the right
  over elements that are not junk (\<open>junk = False\<close>), then to the left and to the right over
  junk elements (\<open>junk = True\<close>). The flag says which of \<open>not isbjunk(...)\<close> and
  \<open>isbjunk(...)\<close> the loop tests.
\<close>

fun extend_left :: "'a list \<Rightarrow> 'a list \<Rightarrow> bool \<Rightarrow> nat \<Rightarrow> nat \<Rightarrow> match \<Rightarrow> match" where
  "extend_left a b junk alo blo (besti, bestj, bestsize) =
     (if besti > alo \<and> bestj > blo \<and> isbjunk (b ! (bestj - 1)) = junk
         \<and> a ! (besti - 1) = b ! (bestj - 1)
      then extend_left a b junk alo blo (besti - 1, bestj - 1, bestsize + 1)
      else (besti, bestj, bestsize))"

function extend_right :: "'a list \<Rightarrow> 'a list \<Rightarrow> bool \<Rightarrow> nat \<Rightarrow> nat \<Rightarrow> match \<Rightarrow> match" where
  "extend_right a b junk ahi bhi (besti, bestj, bestsize) =
     (if besti + bestsize < ahi \<and> bestj + bestsize < bhi \<and> isbjunk (b ! (bestj + bestsize)) = junk
         \<and> a ! (besti + bestsize) = b ! (bestj + bestsize)
      then extend_right a b junk ahi bhi (besti, bestj, bestsize + 1)
      else (besti, bestj, bestsize))"
  by pat_completeness auto
termination
  by (relation "measure (\<lambda>(a, b, junk, ahi, bhi, besti, bestj, bestsize). ahi - (besti + bestsize))") auto

declare extend_left.simps [simp del] extend_right.simps [simp del]

definition find_longest_match :: "'a list \<Rightarrow> 'a list \<Rightarrow> ('a \<rightharpoonup> nat list)
                                   \<Rightarrow> nat \<Rightarrow> nat \<Rightarrow> nat \<Rightarrow> nat \<Rightarrow> match" where
  "find_longest_match a b b2j alo ahi blo bhi =
     extend_right a b True ahi bhi
       (extend_left a b True alo blo
         (extend_right a b False ahi bhi
           (extend_left a b False alo blo
             (snd (main_loop a b2j alo ahi blo bhi)))))"


subsection \<open>Bounds of the longest match\<close>

text \<open>
  The loop of \<open>get_matching_blocks\<close> below terminates because a match found in a region
  lies inside the region. This is proved first, for every input.
\<close>

definition j2len_ok :: "nat \<Rightarrow> nat \<Rightarrow> nat \<Rightarrow> nat \<Rightarrow> (nat \<rightharpoonup> nat) \<Rightarrow> bool" where
  "j2len_ok alo blo bhi i j2len =
     (\<forall>j v. j2len j = Some v \<longrightarrow> 1 \<le> v \<and> v + alo \<le> i \<and> v + blo \<le> j + 1 \<and> j < bhi)"

definition best_ok :: "nat \<Rightarrow> nat \<Rightarrow> nat \<Rightarrow> nat \<Rightarrow> match \<Rightarrow> bool" where
  "best_ok alo ahi blo bhi m =
     (case m of (i, j, k) \<Rightarrow>
        alo \<le> i \<and> blo \<le> j \<and> (k = 0 \<longrightarrow> i = alo \<and> j = blo)
        \<and> (k \<noteq> 0 \<longrightarrow> i + k \<le> ahi \<and> j + k \<le> bhi))"

lemma inner_loop_ok:
  assumes "j2len_ok alo blo bhi i j2len" "i < ahi" "alo \<le> i"
    and "j2len_ok alo blo bhi (Suc i) new" "best_ok alo ahi blo bhi best"
  shows "j2len_ok alo blo bhi (Suc i) (fst (inner_loop j2len i blo bhi js (new, best)))
         \<and> best_ok alo ahi blo bhi (snd (inner_loop j2len i blo bhi js (new, best)))"
  using assms(4,5)
proof (induction js arbitrary: new best)
  case Nil
  then show ?case by simp
next
  case (Cons j js)
  obtain besti bestj bestsize where best: "best = (besti, bestj, bestsize)"
    by (cases best) auto
  show ?case
  proof (cases "j < blo")
    case True
    then show ?thesis using Cons best by simp
  next
    case False
    note nlo = False
    show ?thesis
    proof (cases "j \<ge> bhi")
      case True
      then show ?thesis using Cons.prems best nlo by simp
    next
      case False
      define k where "k = (case (if j = 0 then None else j2len (j - 1)) of None \<Rightarrow> 0 | Some v \<Rightarrow> v) + 1"
      have kb: "1 \<le> k \<and> k + alo \<le> Suc i \<and> k + blo \<le> j + 1"
      proof (cases "if j = 0 then None else j2len (j - 1)")
        case None
        then show ?thesis using nlo assms(3) by (simp add: k_def)
      next
        case (Some v)
        then have "j2len (j - 1) = Some v" "j \<noteq> 0" by (auto split: if_splits)
        then have "1 \<le> v \<and> v + alo \<le> i \<and> v + blo \<le> (j - 1) + 1"
          using assms(1) [unfolded j2len_ok_def, rule_format, of "j - 1" v] by simp
        then show ?thesis using Some \<open>j \<noteq> 0\<close> by (simp add: k_def)
      qed
      have new': "j2len_ok alo blo bhi (Suc i) (new(j \<mapsto> k))"
        using Cons.prems(1) kb False by (auto simp: j2len_ok_def)
      have best': "best_ok alo ahi blo bhi (i + 1 - k, j + 1 - k, k)"
        using kb assms(2) False by (auto simp: best_ok_def)
      show ?thesis
      proof (cases "k > bestsize")
        case True
        have eq: "inner_loop j2len i blo bhi (j # js) (new, best)
              = inner_loop j2len i blo bhi js (new(j \<mapsto> k), i + 1 - k, j + 1 - k, k)"
          using True nlo False best by (simp add: k_def Let_def)
        show ?thesis unfolding eq by (rule Cons.IH [OF new' best'])
      next
        case gt: False
        have eq: "inner_loop j2len i blo bhi (j # js) (new, best)
              = inner_loop j2len i blo bhi js (new(j \<mapsto> k), best)"
          using gt nlo False best by (simp add: k_def Let_def)
        show ?thesis unfolding eq by (rule Cons.IH [OF new' Cons.prems(2)])
      qed
    qed
  qed
qed

lemma row_ok:
  assumes "j2len_ok alo blo bhi i (fst st)" "best_ok alo ahi blo bhi (snd st)" "i < ahi" "alo \<le> i"
  shows "j2len_ok alo blo bhi (Suc i) (fst (row a b2j blo bhi st i))
         \<and> best_ok alo ahi blo bhi (snd (row a b2j blo bhi st i))"
  unfolding row_def
  by (rule inner_loop_ok [OF assms(1) assms(3) assms(4) _ assms(2)]) (simp add: j2len_ok_def)

lemma rows_ok:
  assumes "j2len_ok alo blo bhi i (fst st)" "best_ok alo ahi blo bhi (snd st)" "alo \<le> i"
  shows "best_ok alo ahi blo bhi (snd (foldl (row a b2j blo bhi) st [i..<ahi]))"
  using assms
proof (induction "ahi - i" arbitrary: i st)
  case 0
  then show ?case by simp
next
  case (Suc n)
  then have lt: "i < ahi" by simp
  have n: "n = ahi - Suc i" using Suc.hyps(2) by simp
  have r: "j2len_ok alo blo bhi (Suc i) (fst (row a b2j blo bhi st i))
         \<and> best_ok alo ahi blo bhi (snd (row a b2j blo bhi st i))"
    by (rule row_ok [OF Suc.prems(1) Suc.prems(2) lt Suc.prems(3)])
  have "best_ok alo ahi blo bhi
         (snd (foldl (row a b2j blo bhi) (row a b2j blo bhi st i) [Suc i..<ahi]))"
    by (rule Suc.hyps(1) [OF n]) (use r Suc.prems(3) in simp_all)
  moreover have "[i..<ahi] = i # [Suc i..<ahi]" using lt by (simp add: upt_conv_Cons)
  ultimately show ?case by simp
qed

lemma main_loop_ok: "best_ok alo ahi blo bhi (snd (main_loop a b2j alo ahi blo bhi))"
  unfolding main_loop_def
  by (rule rows_ok) (simp_all add: j2len_ok_def best_ok_def)

lemma extend_left_ok:
  "best_ok alo ahi blo bhi m \<Longrightarrow> best_ok alo ahi blo bhi (extend_left a b junk alo blo m)"
proof (induction a b junk alo blo m rule: extend_left.induct)
  case (1 a b junk alo blo besti bestj bestsize)
  show ?case
  proof (cases "besti > alo \<and> bestj > blo \<and> isbjunk (b ! (bestj - 1)) = junk
         \<and> a ! (besti - 1) = b ! (bestj - 1)")
    case True
    have "best_ok alo ahi blo bhi (besti - 1, bestj - 1, bestsize + 1)"
      using 1(2) True by (auto simp: best_ok_def)
    then show ?thesis using 1(1) True by (subst extend_left.simps) simp
  next
    case False
    then show ?thesis using 1(2) by (subst extend_left.simps) auto
  qed
qed

lemma extend_right_ok:
  "best_ok alo ahi blo bhi m \<Longrightarrow> best_ok alo ahi blo bhi (extend_right a b junk ahi bhi m)"
proof (induction a b junk ahi bhi m rule: extend_right.induct)
  case (1 a b junk ahi bhi besti bestj bestsize)
  show ?case
  proof (cases "besti + bestsize < ahi \<and> bestj + bestsize < bhi \<and> isbjunk (b ! (bestj + bestsize)) = junk
         \<and> a ! (besti + bestsize) = b ! (bestj + bestsize)")
    case True
    have "best_ok alo ahi blo bhi (besti, bestj, bestsize + 1)"
      using 1(2) True by (auto simp: best_ok_def)
    then show ?thesis using 1(1) True by (subst extend_right.simps) simp
  next
    case False
    then show ?thesis using 1(2) by (subst extend_right.simps) auto
  qed
qed

lemma find_longest_match_ok:
  "best_ok alo ahi blo bhi (find_longest_match a b b2j alo ahi blo bhi)"
  unfolding find_longest_match_def
  by (intro extend_right_ok extend_left_ok main_loop_ok)

lemma find_longest_match_bounds:
  "(i, j, k) = find_longest_match a b b2j alo ahi blo bhi \<Longrightarrow> 0 < k \<Longrightarrow> alo \<le> i \<and> i + k \<le> ahi"
  using find_longest_match_ok [of alo ahi blo bhi a b b2j] by (auto simp: best_ok_def)

text \<open>
  \<open>get_matching_blocks\<close>. \<open>queue_loop\<close> is the \<open>while queue\<close> loop; the list \<open>queue\<close> of the
  model is the Python list read from its end, so its head is what \<open>queue.pop()\<close> returns
  and the region to the right of the match, appended last, comes first. \<open>collapse\<close> is the
  loop that merges adjacent blocks of the sorted list, started with \<open>i1 = j1 = k1 = 0\<close>;
  \<open>sort\<close> on triples is the lexicographic order that Python uses for tuples. The
  sentinel \<open>(la, lb, 0)\<close> is appended last.
\<close>

type_synonym box = "nat \<times> nat \<times> nat \<times> nat"

definition box_size :: "box \<Rightarrow> nat" where
  "box_size q = (case q of (alo, ahi, blo, bhi) \<Rightarrow> 2 * (ahi - alo) + 1)"

function queue_loop :: "'a list \<Rightarrow> 'a list \<Rightarrow> ('a \<rightharpoonup> nat list) \<Rightarrow> box list \<Rightarrow> match list
                          \<Rightarrow> match list" where
  "queue_loop a b b2j [] matching_blocks = matching_blocks"
| "queue_loop a b b2j ((alo, ahi, blo, bhi) # queue) matching_blocks =
     (case find_longest_match a b b2j alo ahi blo bhi of
        (i, j, k) \<Rightarrow>
          if k \<noteq> 0 then
            queue_loop a b b2j
              ((if i + k < ahi \<and> j + k < bhi then [(i + k, ahi, j + k, bhi)] else [])
               @ (if alo < i \<and> blo < j then [(alo, i, blo, j)] else []) @ queue)
              (matching_blocks @ [(i, j, k)])
          else queue_loop a b b2j queue matching_blocks)"
  by pat_completeness auto
termination
  apply (relation "measure (\<lambda>(a, b, b2j, queue, mbs). sum_list (map box_size queue))")
    apply simp
   apply (auto simp: box_size_def dest!: find_longest_match_bounds)
  done

declare queue_loop.simps [simp del]

fun collapse :: "match \<Rightarrow> match list \<Rightarrow> match list" where
  "collapse (i1, j1, k1) [] = (if k1 \<noteq> 0 then [(i1, j1, k1)] else [])"
| "collapse (i1, j1, k1) ((i2, j2, k2) # rest) =
     (if i1 + k1 = i2 \<and> j1 + k1 = j2 then collapse (i1, j1, k1 + k2) rest
      else (if k1 \<noteq> 0 then [(i1, j1, k1)] else []) @ collapse (i2, j2, k2) rest)"

definition get_matching_blocks :: "'a list \<Rightarrow> 'a list \<Rightarrow> match list" where
  "get_matching_blocks a b =
     (let la = length a; lb = length b;
          matching_blocks = queue_loop a b (chain_b b) [(0, la, 0, lb)] []
      in collapse (0, 0, 0) (sort matching_blocks) @ [(la, lb, 0)])"

text \<open>
  \<open>get_opcodes\<close>: the loop over the matching blocks, started with \<open>i = j = 0\<close>. The tag is
  a datatype instead of a string; the empty tag of the source is the empty list of
  operations here.
\<close>

datatype tag = Replace | Delete | Insert | Equal

type_synonym opcode = "tag \<times> nat \<times> nat \<times> nat \<times> nat"

fun opcodes_loop :: "nat \<Rightarrow> nat \<Rightarrow> match list \<Rightarrow> opcode list" where
  "opcodes_loop i j [] = []"
| "opcodes_loop i j ((ai, bj, sz) # rest) =
     (if i < ai \<and> j < bj then [(Replace, i, ai, j, bj)]
      else if i < ai then [(Delete, i, ai, j, bj)]
      else if j < bj then [(Insert, i, ai, j, bj)]
      else [])
     @ (if sz \<noteq> 0 then [(Equal, ai, ai + sz, bj, bj + sz)] else [])
     @ opcodes_loop (ai + sz) (bj + sz) rest"

definition get_opcodes :: "'a list \<Rightarrow> 'a list \<Rightarrow> opcode list" where
  "get_opcodes a b = opcodes_loop 0 0 (get_matching_blocks a b)"

section \<open>Word classification\<close>

text \<open>\<open>xs[i1:i2]\<close> for indices that are not negative.\<close>

definition slice :: "'a list \<Rightarrow> nat \<Rightarrow> nat \<Rightarrow> 'a list" where
  "slice xs i1 i2 = take (i2 - i1) (drop i1 xs)"

text \<open>
  Exceptions are values of \<open>error\<close>; a computation that may raise returns \<open>error + 'a\<close>.
  \<open>pyval\<close> holds the values that the configuration produces: \<open>None\<close>, a Boolean, an
  integer or a string; \<open>truthy\<close> is the truth value that \<open>if\<close> gives them.
\<close>

datatype error = AttributeError | ValueError | TypeError | KeyError | OtherError

datatype pyval = PNone | PBool bool | PInt int | PStr string

fun truthy :: "pyval \<Rightarrow> bool" where
  "truthy PNone = False"
| "truthy (PBool b) = b"
| "truthy (PInt n) = (n \<noteq> 0)"
| "truthy (PStr s) = (s \<noteq> [])"

fun map_err :: "('a \<Rightarrow> error + 'b) \<Rightarrow> 'a list \<Rightarrow> error + 'b list" where
  "map_err f [] = Inr []"
| "map_err f (x # xs) =
     (case f x of Inl e \<Rightarrow> Inl e
      | Inr y \<Rightarrow> (case map_err f xs of Inl e \<Rightarrow> Inl e | Inr ys \<Rightarrow> Inr (y # ys)))"

text \<open>
  \<open>word_diff\<close> (lines 86 to 110). The dictionary \<open>colors\<close> has four fixed keys and is a
  record. \<open>colored\<close> of the \<open>termcolor\<close> package is a parameter of the model: any function
  from the word and the colour to a styled word or an exception. \<open>apply_styles\<close> is the
  inner function of lines 91 to 96. \<open>emit\<close> is the body of the loop of lines 98 to 108
  for one operation: the words it appends to \<open>orig_output\<close> and to \<open>mod_output\<close>. A list
  comprehension stops at the first exception (\<open>map_err\<close>).
\<close>

record colors =
  replace_color_left :: pyval
  replace_color_right :: pyval
  insert_color :: pyval
  delete_color :: pyval

type_synonym colored = "string \<Rightarrow> pyval \<Rightarrow> error + string"

definition apply_styles :: "colored \<Rightarrow> pyval \<Rightarrow> pyval \<Rightarrow> string \<Rightarrow> pyval \<Rightarrow> error + string" where
  "apply_styles colored color underline word word_color =
     (case (if truthy color then colored word word_color else Inr word) of
        Inl e \<Rightarrow> Inl e
      | Inr word' \<Rightarrow>
          Inr (if truthy underline then ESC # ''[4m'' @ word' @ ESC # ''[0m'' else word'))"

definition emit :: "colored \<Rightarrow> string list \<Rightarrow> string list \<Rightarrow> colors \<Rightarrow> pyval \<Rightarrow> pyval
                      \<Rightarrow> opcode \<Rightarrow> error + (string list \<times> string list)" where
  "emit colored orig_words mod_words colors color underline opc =
     (case opc of (tag, i1, i2, j1, j2) \<Rightarrow>
        (case tag of
           Equal \<Rightarrow> Inr (slice orig_words i1 i2, slice mod_words j1 j2)
         | Replace \<Rightarrow>
             (case map_err (\<lambda>word. apply_styles colored color underline word (replace_color_left colors))
                     (slice orig_words i1 i2) of
                Inl e \<Rightarrow> Inl e
              | Inr l \<Rightarrow>
                  (case map_err (\<lambda>word. apply_styles colored color underline word
                                           (replace_color_right colors))
                          (slice mod_words j1 j2) of
                     Inl e \<Rightarrow> Inl e
                   | Inr r \<Rightarrow> Inr (l, r)))
         | Delete \<Rightarrow>
             (case map_err (\<lambda>word. apply_styles colored color underline word (delete_color colors))
                     (slice orig_words i1 i2) of
                Inl e \<Rightarrow> Inl e
              | Inr l \<Rightarrow> Inr (l, []))
         | Insert \<Rightarrow>
             (case map_err (\<lambda>word. apply_styles colored color underline word (insert_color colors))
                     (slice mod_words j1 j2) of
                Inl e \<Rightarrow> Inl e
              | Inr r \<Rightarrow> Inr ([], r))))"

fun word_diff_loop :: "colored \<Rightarrow> string list \<Rightarrow> string list \<Rightarrow> colors \<Rightarrow> pyval \<Rightarrow> pyval
                      \<Rightarrow> opcode list \<Rightarrow> string list \<times> string list
                      \<Rightarrow> error + (string list \<times> string list)" where
  "word_diff_loop colored orig_words mod_words colors color underline [] outputs = Inr outputs"
| "word_diff_loop colored orig_words mod_words colors color underline (opc # opcodes)
       (orig_output, mod_output) =
     (case emit colored orig_words mod_words colors color underline opc of
        Inl e \<Rightarrow> Inl e
      | Inr (l, r) \<Rightarrow>
          word_diff_loop colored orig_words mod_words colors color underline opcodes
            (orig_output @ l, mod_output @ r))"

definition word_diff :: "colored \<Rightarrow> string \<Rightarrow> string \<Rightarrow> colors \<Rightarrow> pyval \<Rightarrow> pyval
                           \<Rightarrow> error + (string \<times> string)" where
  "word_diff colored orig_line modified_line colors color underline =
     (let orig_words = split orig_line; mod_words = split modified_line
      in case word_diff_loop colored orig_words mod_words colors color underline
                (get_opcodes orig_words mod_words) ([], []) of
           Inl e \<Rightarrow> Inl e
         | Inr (orig_output, mod_output) \<Rightarrow>
             Inr (join '' '' orig_output, join '' '' mod_output))"

section \<open>Text wrapping\<close>

text \<open>
  Lines are wrapped with \<open>textwrap.fill(text, width)\<close> of the Python standard library
  (\<open>worddiff.py\<close>, lines 165 and 166). The definitions follow \<open>Lib/textwrap.py\<close> of
  CPython 3.11 with the default options of \<open>TextWrapper\<close>: tabs expanded, whitespace
  replaced, long words broken, breaks on hyphens, whitespace dropped at line ends, no
  indent and no limit on the number of lines.
\<close>

subsection \<open>Character classes of textwrap\<close>

text \<open>
  \<open>tw_whitespace\<close> is the string \<open>_whitespace\<close> (tab, newline, vertical tab, form feed,
  carriage return, space). \<open>re_word\<close> and \<open>re_digit\<close> are the classes that the regular
  expression engine calls word character and digit, on code points below 256;
  \<open>letter\<close> is a word character that is no digit, \<open>word_punct\<close> a word character or one
  of the seven punctuation marks of the source.
\<close>

definition tw_whitespace :: "char \<Rightarrow> bool" where
  "tw_whitespace c = ((9 \<le> code c \<and> code c \<le> 13) \<or> code c = 32)"

definition re_digit :: "char \<Rightarrow> bool" where
  "re_digit c = (48 \<le> code c \<and> code c \<le> 57)"

definition re_word :: "char \<Rightarrow> bool" where
  "re_word c = (re_digit c \<or> (65 \<le> code c \<and> code c \<le> 90) \<or> code c = 95
                \<or> (97 \<le> code c \<and> code c \<le> 122)
                \<or> code c \<in> {170, 178, 179, 181, 185, 186, 188, 189, 190}
                \<or> (192 \<le> code c \<and> code c \<le> 214) \<or> (216 \<le> code c \<and> code c \<le> 246)
                \<or> (248 \<le> code c \<and> code c \<le> 255))"

definition letter :: "char \<Rightarrow> bool" where
  "letter c = (re_word c \<and> \<not> re_digit c)"

definition word_punct :: "char \<Rightarrow> bool" where
  "word_punct c = (re_word c \<or> c \<in> set ''!\"'&.,?'')"

definition hyphen :: char where
  "hyphen = CHR ''-''"

subsection \<open>Whitespace munging\<close>

text \<open>
  \<open>_munge_whitespace\<close>: \<open>text.expandtabs(8)\<close>, where a tab fills up to the next multiple
  of 8 of the column and a newline or carriage return resets the column, then the
  translation of every whitespace character to a space.
\<close>

fun expandtabs :: "nat \<Rightarrow> string \<Rightarrow> string" where
  "expandtabs line_pos [] = []"
| "expandtabs line_pos (c # cs) =
     (if c = CHR 0x09 then
        (let incr = 8 - line_pos mod 8
         in replicate incr CHR '' '' @ expandtabs (line_pos + incr) cs)
      else c # expandtabs (if c = CHR 0x0A \<or> c = CHR 0x0D then 0 else line_pos + 1) cs)"

definition munge_whitespace :: "string \<Rightarrow> string" where
  "munge_whitespace text =
     map (\<lambda>c. if tw_whitespace c then CHR '' '' else c) (expandtabs 0 text)"

subsection \<open>Splitting into chunks\<close>

text \<open>
  \<open>_split\<close> splits the text with \<open>wordsep_re\<close> and drops the empty strings. The
  expression matches at every position: a run of whitespace; or, after a
  \<open>word_punct\<close> character, a run of two or more hyphens followed by a word character
  (\<open>emdash_ahead\<close>); or the shortest run of other characters that ends after a hyphen
  between letters (\<open>hyphen_behind\<close> and \<open>letters_ahead\<close> are its look-behind and
  look-ahead), before whitespace or the end of the text, or before such a run of
  hyphens. So the chunks are the successive matches. \<open>prev\<close> is the text before the
  current position, reversed, for the look-behinds; \<open>word_chunk\<close> is the third
  alternative, trying one more character at a time.
\<close>

definition emdash_ahead :: "string \<Rightarrow> bool" where
  "emdash_ahead rest =
     (2 \<le> length (takeWhile (\<lambda>c. c = hyphen) rest)
      \<and> (case dropWhile (\<lambda>c. c = hyphen) rest of [] \<Rightarrow> False | c # _ \<Rightarrow> re_word c))"

definition hyphen_behind :: "string \<Rightarrow> bool" where
  "hyphen_behind prev =
     ((case prev of h # x # y # _ \<Rightarrow> h = hyphen \<and> letter x \<and> letter y | _ \<Rightarrow> False)
      \<or> (case prev of h # x # g # y # _ \<Rightarrow> h = hyphen \<and> letter x \<and> g = hyphen \<and> letter y
          | _ \<Rightarrow> False))"

definition letters_ahead :: "string \<Rightarrow> bool" where
  "letters_ahead rest =
     (case rest of
        c1 # c2 # r \<Rightarrow>
          letter c1 \<and> ((c2 = hyphen \<and> (case r of c3 # _ \<Rightarrow> letter c3 | [] \<Rightarrow> False)) \<or> letter c2)
      | _ \<Rightarrow> False)"

fun word_chunk :: "string \<Rightarrow> string \<Rightarrow> string \<Rightarrow> string \<times> string" where
  "word_chunk prev cur [] = (cur, [])"
| "word_chunk prev cur (c # rest) =
     (if c = hyphen \<and> hyphen_behind (c # prev) \<and> letters_ahead rest then (cur @ [c], rest)
      else if tw_whitespace c then (cur, c # rest)
      else if (case prev of [] \<Rightarrow> False | x # _ \<Rightarrow> word_punct x) \<and> emdash_ahead (c # rest)
      then (cur, c # rest)
      else word_chunk (c # prev) (cur @ [c]) rest)"

lemma word_chunk_length: "length (snd (word_chunk prev cur rest)) \<le> length rest"
proof (induction rest arbitrary: prev cur)
  case Nil
  then show ?case by simp
next
  case (Cons c rest)
  have "length (snd (word_chunk (c # prev) (cur @ [c]) rest)) \<le> Suc (length rest)"
    using Cons [of "c # prev" "cur @ [c]"] by simp
  then show ?case by simp
qed

function wordsep_split :: "string \<Rightarrow> string \<Rightarrow> string list" where
  "wordsep_split prev [] = []"
| "wordsep_split prev (c # cs) =
     (if tw_whitespace c then
        takeWhile tw_whitespace (c # cs)
        # wordsep_split (rev (takeWhile tw_whitespace (c # cs)) @ prev) (dropWhile tw_whitespace cs)
      else if (case prev of [] \<Rightarrow> False | x # _ \<Rightarrow> word_punct x) \<and> emdash_ahead (c # cs) then
        takeWhile (\<lambda>c. c = hyphen) (c # cs)
        # wordsep_split (rev (takeWhile (\<lambda>c. c = hyphen) (c # cs)) @ prev)
            (dropWhile (\<lambda>c. c = hyphen) cs)
      else
        fst (word_chunk (c # prev) [c] cs)
        # wordsep_split (rev (fst (word_chunk (c # prev) [c] cs)) @ prev)
            (snd (word_chunk (c # prev) [c] cs)))"
  by pat_completeness auto
termination
  by (relation "measure (\<lambda>(prev, text). length text)")
     (auto simp: word_chunk_length le_imp_less_Suc length_dropWhile_le)

definition split_chunks :: "string \<Rightarrow> string list" where
  "split_chunks text = wordsep_split [] (munge_whitespace text)"

subsection \<open>Wrapping chunks into lines\<close>

text \<open>
  \<open>_wrap_chunks\<close>. The source reverses the list of chunks and pops from its end; the
  model keeps the chunks in order and takes them from the head. \<open>take_fitting\<close> is the
  inner \<open>while\<close> loop that moves chunks to the current line while they fit,
  \<open>handle_long_word\<close> the method of that name for \<open>break_long_words\<close> and
  \<open>break_on_hyphens\<close> both true (\<open>rfind\<close> is \<open>str.rfind\<close>, \<open>-1\<close> when the character is
  absent), and \<open>wrap_step\<close> one round of the outer loop: it returns the chunks left and
  the lines so far. \<open>space_left\<close> is never negative there, because the current line is
  never longer than the width, so \<open>chunk[:end]\<close> is \<open>take\<close>.
\<close>

definition is_blank :: "string \<Rightarrow> bool" where
  "is_blank s = (strip s = [])"

definition rfind :: "char \<Rightarrow> string \<Rightarrow> int" where
  "rfind ch s = fold (\<lambda>(i, c) r. if c = ch then int i else r) (enumerate 0 s) (- 1)"

fun take_fitting :: "int \<Rightarrow> string list \<Rightarrow> string list \<Rightarrow> int
                       \<Rightarrow> string list \<times> int \<times> string list" where
  "take_fitting width [] cur_line cur_len = (cur_line, cur_len, [])"
| "take_fitting width (c # chunks) cur_line cur_len =
     (let l = int (length c)
      in if cur_len + l \<le> width then take_fitting width chunks (cur_line @ [c]) (cur_len + l)
         else (cur_line, cur_len, c # chunks))"

definition handle_long_word :: "string list \<Rightarrow> string list \<Rightarrow> int \<Rightarrow> int
                                 \<Rightarrow> string list \<times> string list" where
  "handle_long_word reversed_chunks cur_line cur_len width =
     (let space_left = (if width < 1 then 1 else width - cur_len);
          chunk = hd reversed_chunks;
          hyphen_pos = rfind hyphen (take (nat space_left) chunk);
          end = (if int (length chunk) > space_left \<and> hyphen_pos > 0
                    \<and> (\<exists>c \<in> set (take (nat hyphen_pos) chunk). c \<noteq> hyphen)
                 then hyphen_pos + 1 else space_left)
      in (drop (nat end) chunk # tl reversed_chunks, cur_line @ [take (nat end) chunk]))"

definition wrap_step :: "int \<Rightarrow> string list \<Rightarrow> string list \<Rightarrow> string list \<times> string list" where
  "wrap_step width chunks lines =
     (let chunks1 = (if is_blank (hd chunks) \<and> lines \<noteq> [] then tl chunks else chunks);
          (cur_line, cur_len, chunks2) = take_fitting width chunks1 [] 0;
          (chunks3, cur_line2) =
             (if chunks2 \<noteq> [] \<and> int (length (hd chunks2)) > width
              then handle_long_word chunks2 cur_line cur_len width
              else (chunks2, cur_line));
          cur_line3 = (if cur_line2 \<noteq> [] \<and> is_blank (last cur_line2)
                       then butlast cur_line2 else cur_line2)
      in (chunks3, if cur_line3 \<noteq> [] then lines @ [concat cur_line3] else lines))"

text \<open>
  Every round of the outer loop removes a chunk or shortens one, for every positive
  width; this is the termination of \<open>wrap_loop\<close> below.
\<close>

definition chunks_size :: "string list \<Rightarrow> nat" where
  "chunks_size chunks = sum_list (map length chunks) + length chunks"

lemma take_fitting_split:
  "take_fitting width cs cl len = (cl', len', cs') \<Longrightarrow>
     \<exists>popped. cs = popped @ cs' \<and> cl' = cl @ popped
       \<and> len' = len + int (sum_list (map length popped))
       \<and> (cs' \<noteq> [] \<longrightarrow> width < len' + int (length (hd cs')))"
proof (induction cs arbitrary: cl len)
  case Nil
  then show ?case by simp
next
  case (Cons c cs)
  show ?case
  proof (cases "len + int (length c) \<le> width")
    case True
    then have "take_fitting width cs (cl @ [c]) (len + int (length c)) = (cl', len', cs')"
      using Cons.prems by simp
    then obtain popped where p: "cs = popped @ cs'" "cl' = (cl @ [c]) @ popped"
      "len' = len + int (length c) + int (sum_list (map length popped))"
      "cs' \<noteq> [] \<longrightarrow> width < len' + int (length (hd cs'))"
      using Cons.IH by blast
    show ?thesis
      by (rule exI [of _ "c # popped"]) (use p in simp)
  next
    case False
    then have "cl' = cl" "len' = len" "cs' = c # cs" using Cons.prems by auto
    then show ?thesis using False by (intro exI [of _ "[]"]) simp
  qed
qed

lemma rfind_bounds: "- 1 \<le> rfind ch s \<and> rfind ch s < int (length s)"
proof -
  have "- 1 \<le> fold (\<lambda>(i, c) r. if c = ch then int i else r) (enumerate n s) r
        \<and> fold (\<lambda>(i, c) r. if c = ch then int i else r) (enumerate n s) r < int (n + length s)"
    if "- 1 \<le> r" "r < int n \<or> (r = -1)" for n r
    using that
  proof (induction s arbitrary: n r)
    case Nil
    then show ?case by auto
  next
    case (Cons c s)
    show ?case using Cons.IH [of "if c = ch then int n else r" "Suc n"] Cons.prems by auto
  qed
  from this [of "-1" 0] show ?thesis by (simp add: rfind_def)
qed

lemma handle_long_word_size:
  assumes "reversed_chunks \<noteq> []" "width < int (length (hd reversed_chunks))" "0 < width"
    "0 \<le> cur_len" "cur_len \<le> width"
  shows "chunks_size (fst (handle_long_word reversed_chunks cur_line cur_len width))
           \<le> chunks_size reversed_chunks
         \<and> (cur_len = 0 \<longrightarrow> chunks_size (fst (handle_long_word reversed_chunks cur_line cur_len width))
               < chunks_size reversed_chunks)"
proof -
  obtain chunk rest where c: "reversed_chunks = chunk # rest" using assms(1) by (cases reversed_chunks) auto
  define space_left where "space_left = width - cur_len"
  define hyphen_pos where "hyphen_pos = rfind hyphen (take (nat space_left) chunk)"
  define end' where "end' = (if int (length chunk) > space_left \<and> hyphen_pos > 0
                    \<and> (\<exists>c \<in> set (take (nat hyphen_pos) chunk). c \<noteq> hyphen)
                 then hyphen_pos + 1 else space_left)"
  have h: "fst (handle_long_word reversed_chunks cur_line cur_len width) = drop (nat end') chunk # rest"
    using assms(3) c by (auto simp: handle_long_word_def Let_def space_left_def hyphen_pos_def end'_def)
  have sl: "0 \<le> space_left" "space_left \<le> width" using assms by (auto simp: space_left_def)
  have "hyphen_pos < int (length (take (nat space_left) chunk))"
    using rfind_bounds [of hyphen "take (nat space_left) chunk"] by (simp add: hyphen_pos_def)
  then have hp: "hyphen_pos < space_left" using sl by simp
  have e: "0 \<le> end'" "end' \<le> space_left" "cur_len = 0 \<longrightarrow> 1 \<le> end'"
    using hp sl assms(3) by (auto simp: end'_def space_left_def)
  have len: "nat end' \<le> length chunk" using e sl assms(2) c by auto
  have "chunks_size (fst (handle_long_word reversed_chunks cur_line cur_len width)) + nat end'
        = chunks_size reversed_chunks"
    using len by (simp add: h [unfolded c] c chunks_size_def)
  moreover have "cur_len = 0 \<longrightarrow> 1 \<le> nat end'" using e by auto
  ultimately show ?thesis by auto
qed

lemma take_fitting_le:
  "take_fitting width cs cl len = (cl', len', cs') \<Longrightarrow> len \<le> width \<Longrightarrow> len' \<le> width"
proof (induction cs arbitrary: cl len)
  case Nil
  then show ?case by simp
next
  case (Cons c cs)
  show ?case
  proof (cases "len + int (length c) \<le> width")
    case True
    then have "take_fitting width cs (cl @ [c]) (len + int (length c)) = (cl', len', cs')"
      using Cons.prems by simp
    then show ?thesis using Cons.IH True by blast
  next
    case False
    then show ?thesis using Cons.prems by auto
  qed
qed

lemma wrap_step_decreases:
  assumes "chunks \<noteq> []" "0 < width"
  shows "chunks_size (fst (wrap_step width chunks lines)) < chunks_size chunks"
proof -
  define chunks1 where "chunks1 = (if is_blank (hd chunks) \<and> lines \<noteq> [] then tl chunks else chunks)"
  obtain cur_line cur_len chunks2 where t: "take_fitting width chunks1 [] 0 = (cur_line, cur_len, chunks2)"
    by (cases "take_fitting width chunks1 [] 0") auto
  obtain popped where p: "chunks1 = popped @ chunks2" "cur_line = popped"
    "cur_len = int (sum_list (map length popped))"
    "chunks2 \<noteq> [] \<longrightarrow> width < cur_len + int (length (hd chunks2))"
    using take_fitting_split [OF t] by auto
  define r where "r = (if chunks2 \<noteq> [] \<and> int (length (hd chunks2)) > width
              then handle_long_word chunks2 cur_line cur_len width
              else (chunks2, cur_line))"
  have f: "fst (wrap_step width chunks lines) = fst r"
    unfolding wrap_step_def Let_def chunks1_def [symmetric] t prod.case r_def [symmetric]
    by (simp add: case_prod_unfold)
  have c1: "chunks_size chunks1 \<le> chunks_size chunks"
    and c1': "chunks1 \<noteq> chunks \<longrightarrow> chunks_size chunks1 < chunks_size chunks"
    using assms(1) by (cases chunks; auto simp: chunks1_def chunks_size_def)+
  have c2: "chunks_size chunks1 = chunks_size popped + chunks_size chunks2"
    using p(1) by (simp add: chunks_size_def)
  have pz: "popped \<noteq> [] \<longrightarrow> 0 < chunks_size popped" by (cases popped) (auto simp: chunks_size_def)
  have cl: "cur_len \<le> width" using take_fitting_le [OF t] assms(2) by simp
  have c0: "0 \<le> cur_len" using p(3) by simp
  show ?thesis
  proof (cases "chunks2 \<noteq> [] \<and> int (length (hd chunks2)) > width")
    case True
    then have r: "r = handle_long_word chunks2 cur_line cur_len width" by (simp add: r_def)
    have h: "chunks_size (fst r) \<le> chunks_size chunks2"
      "cur_len = 0 \<longrightarrow> chunks_size (fst r) < chunks_size chunks2"
      using handle_long_word_size [of chunks2 width cur_len cur_line] True assms(2) c0 cl
      unfolding r by auto
    show ?thesis
    proof (cases "popped = []")
      case True
      then have "cur_len = 0" using p(3) by simp
      then show ?thesis using h c1 c2 f by simp
    next
      case False
      then show ?thesis using h c1 c2 pz f by simp
    qed
  next
    case False
    then have r: "fst r = chunks2" unfolding r_def by (simp only: if_False fst_conv)
    show ?thesis
    proof (cases "popped = []")
      case pe: True
      then have z: "cur_len = 0" "chunks2 = chunks1" using p(1,3) by auto
      have "chunks1 \<noteq> chunks"
      proof
        assume "chunks1 = chunks"
        then have "chunks2 \<noteq> []" using z assms(1) by simp
        then show False using p(4) z False by simp
      qed
      then show ?thesis using c1' z f r by simp
    next
      case False
      then show ?thesis using c1 c2 pz f r by simp
    qed
  qed
qed

text \<open>
  \<open>wrap_loop\<close> is the outer \<open>while chunks\<close> loop. \<open>_wrap_chunks\<close> raises \<open>ValueError\<close> for a
  width below 1 before the loop (\<open>wrap\<close>), so the loop runs with a positive width only;
  the test on the width in \<open>wrap_loop\<close> says so and is never true in a call from
  \<open>wrap\<close>. \<open>fill\<close> joins the lines of \<open>wrap\<close> with newlines.
\<close>

function wrap_loop :: "int \<Rightarrow> string list \<Rightarrow> string list \<Rightarrow> string list" where
  "wrap_loop width chunks lines =
     (if chunks = [] \<or> width \<le> 0 then lines
      else wrap_loop width (fst (wrap_step width chunks lines)) (snd (wrap_step width chunks lines)))"
  by pat_completeness auto
termination
  by (relation "measure (\<lambda>(width, chunks, lines). chunks_size chunks)")
     (auto simp: wrap_step_decreases case_prod_unfold)

declare wrap_loop.simps [simp del]

definition NL :: char where
  "NL = CHR 0x0A"

definition wrap :: "string \<Rightarrow> int \<Rightarrow> error + string list" where
  "wrap text width =
     (if width \<le> 0 then Inl ValueError else Inr (wrap_loop width (split_chunks text) []))"

definition fill :: "string \<Rightarrow> int \<Rightarrow> error + string" where
  "fill text width = (case wrap text width of Inl e \<Rightarrow> Inl e | Inr lines \<Rightarrow> Inr (join [NL] lines))"

section \<open>Rendering and the program\<close>

subsection \<open>Rendering one line pair\<close>

text \<open>
  Lines 164 to 173 for one pair of lines: \<open>word_diff\<close>, \<open>textwrap.fill\<close> on both
  sides, the split at newlines (\<open>split_sep\<close> is \<open>str.split(sep)\<close> for a one-character separator),
  the shorter list of lines filled up with empty strings, and one row for every pair
  of lines: both sides padded by \<open>pad_text\<close> and joined by the separator.
  \<open>padded_halves\<close> returns the two padded sides of every row and \<open>format_row\<close> joins
  them, so that \<open>render_pair\<close> returns the rows that line 173 appends.
\<close>

fun split_sep_aux :: "char \<Rightarrow> string \<Rightarrow> string \<Rightarrow> string list" where
  "split_sep_aux sep cur [] = [cur]"
| "split_sep_aux sep cur (c # cs) =
     (if c = sep then cur # split_sep_aux sep [] cs else split_sep_aux sep (cur @ [c]) cs)"

definition split_sep :: "char \<Rightarrow> string \<Rightarrow> string list" where
  "split_sep sep s = split_sep_aux sep [] s"

definition column_separator :: string where
  "column_separator = '' | ''"

definition padded_halves :: "string \<Rightarrow> string \<Rightarrow> int \<Rightarrow> error + (string \<times> string) list" where
  "padded_halves orig_diff mod_diff fixed_width =
     (case fill orig_diff fixed_width of
        Inl e \<Rightarrow> Inl e
      | Inr wrapped_orig_diff \<Rightarrow>
          (case fill mod_diff fixed_width of
             Inl e \<Rightarrow> Inl e
           | Inr wrapped_mod_diff \<Rightarrow>
               (let orig_diff_lines = split_sep NL wrapped_orig_diff;
                    mod_diff_lines = split_sep NL wrapped_mod_diff;
                    max_lines = max (length orig_diff_lines) (length mod_diff_lines);
                    orig_diff_lines' = orig_diff_lines @ replicate (max_lines - length orig_diff_lines) [];
                    mod_diff_lines' = mod_diff_lines @ replicate (max_lines - length mod_diff_lines) []
                in Inr (map (\<lambda>(orig_line, mod_line).
                              (pad_text orig_line fixed_width, pad_text mod_line fixed_width))
                         (zip orig_diff_lines' mod_diff_lines')))))"

definition format_row :: "string \<times> string \<Rightarrow> string" where
  "format_row halves = fst halves @ column_separator @ snd halves"

definition render_pair :: "colored \<Rightarrow> colors \<Rightarrow> pyval \<Rightarrow> pyval \<Rightarrow> int \<Rightarrow> string \<Rightarrow> string
                             \<Rightarrow> error + string list" where
  "render_pair colored colors color underline fixed_width orig modified =
     (case word_diff colored orig modified colors color underline of
        Inl e \<Rightarrow> Inl e
      | Inr (orig_diff, mod_diff) \<Rightarrow>
          (case padded_halves orig_diff mod_diff fixed_width of
             Inl e \<Rightarrow> Inl e
           | Inr halves \<Rightarrow> Inr (map format_row halves)))"

subsection \<open>Expanding line-level operations\<close>

text \<open>
  Lines 157 to 173: \<open>opcode_loop\<close> is the loop over the operations of the line-level
  alignment and \<open>pair_loop\<close> the loop over \<open>zip_longest(..., fillvalue='')\<close> inside,
  with the \<open>continue\<close> for a pair that is blank on both sides. \<open>render\<close> stands for
  lines 164 to 173; an exception there ends both loops.
\<close>

fun zip_longest :: "string list \<Rightarrow> string list \<Rightarrow> (string \<times> string) list" where
  "zip_longest [] [] = []"
| "zip_longest (x # xs) [] = (x, []) # zip_longest xs []"
| "zip_longest [] (y # ys) = ([], y) # zip_longest [] ys"
| "zip_longest (x # xs) (y # ys) = (x, y) # zip_longest xs ys"

fun pair_loop :: "(string \<Rightarrow> string \<Rightarrow> error + string list) \<Rightarrow> (string \<times> string) list
                    \<Rightarrow> string list \<Rightarrow> error + string list" where
  "pair_loop render [] diff_output = Inr diff_output"
| "pair_loop render ((orig, modified) # pairs) diff_output =
     (if strip orig = [] \<and> strip modified = [] then pair_loop render pairs diff_output
      else (case render orig modified of
              Inl e \<Rightarrow> Inl e
            | Inr rows \<Rightarrow> pair_loop render pairs (diff_output @ rows)))"

fun opcode_loop :: "(string \<Rightarrow> string \<Rightarrow> error + string list) \<Rightarrow> string list \<Rightarrow> string list
                      \<Rightarrow> opcode list \<Rightarrow> string list \<Rightarrow> error + string list" where
  "opcode_loop render orig_lines modified_lines [] diff_output = Inr diff_output"
| "opcode_loop render orig_lines modified_lines ((tag, i1, i2, j1, j2) # opcodes) diff_output =
     (if tag = Equal then opcode_loop render orig_lines modified_lines opcodes diff_output
      else (case pair_loop render
                   (zip_longest (slice orig_lines i1 i2) (slice modified_lines j1 j2)) diff_output of
              Inl e \<Rightarrow> Inl e
            | Inr diff_output' \<Rightarrow>
                opcode_loop render orig_lines modified_lines opcodes diff_output'))"

subsection \<open>Configuration\<close>

text \<open>
  \<open>get_config_value\<close> (lines 27 to 43). \<open>config\<close> is the \<open>DEFAULT\<close> section of
  \<open>config.ini\<close> as a map from option names to values (without interpolation).
  \<open>getboolean\<close> is the method of \<open>configparser\<close>: it accepts the eight words of
  \<open>BOOLEAN_STATES\<close> in any case and raises \<open>ValueError\<close> otherwise. The built-in
  \<open>int\<close> on strings is the parameter \<open>py_int\<close>, with \<open>None\<close> where it raises
  \<open>ValueError\<close>. \<open>lower\<close> is \<open>str.lower\<close> on code points below 256.
  \<open>calculate_fixed_width\<close> is lines 50 to 55, with the width of the terminal as a
  parameter, \<open>to_int\<close> the built-in \<open>int\<close> of line 129 and \<open>parse\<close> lines 61 to 63, which
  raises \<open>AttributeError\<close> on a value that is no string, as \<open>None.split\<close> does.
\<close>

definition lower :: "string \<Rightarrow> string" where
  "lower s = map (\<lambda>c. if (65 \<le> code c \<and> code c \<le> 90) \<or> (192 \<le> code c \<and> code c \<le> 214)
                          \<or> (216 \<le> code c \<and> code c \<le> 222)
                       then char_of (code c + 32) else c) s"

definition getboolean :: "string \<Rightarrow> error + pyval" where
  "getboolean v =
     (if lower v \<in> {''1'', ''yes'', ''true'', ''on''} then Inr (PBool True)
      else if lower v \<in> {''0'', ''no'', ''false'', ''off''} then Inr (PBool False)
      else Inl ValueError)"

definition get_config_value :: "(string \<Rightarrow> int option) \<Rightarrow> (string \<rightharpoonup> string) \<Rightarrow> string \<Rightarrow> pyval
                                 \<Rightarrow> pyval \<Rightarrow> error + pyval" where
  "get_config_value py_int config key command_line_arg dflt =
     (if command_line_arg \<noteq> PNone then Inr command_line_arg
      else (case config key of
              Some v \<Rightarrow>
                if key \<in> {''color'', ''underline''} then getboolean v
                else if key = ''fixed_width'' then
                  (if lower v = ''none'' then Inr PNone
                   else (case py_int v of Some n \<Rightarrow> Inr (PInt n) | None \<Rightarrow> Inr dflt))
                else Inr (PStr v)
            | None \<Rightarrow> Inr dflt))"

definition calculate_fixed_width :: "int \<Rightarrow> pyval \<Rightarrow> pyval" where
  "calculate_fixed_width terminal_width fixed_width =
     (if fixed_width = PNone then PInt (terminal_width div 2 - 4) else fixed_width)"

fun to_int :: "(string \<Rightarrow> int option) \<Rightarrow> pyval \<Rightarrow> error + int" where
  "to_int py_int (PInt n) = Inr n"
| "to_int py_int (PBool b) = Inr (if b then 1 else 0)"
| "to_int py_int (PStr s) = (case py_int s of Some n \<Rightarrow> Inr n | None \<Rightarrow> Inl ValueError)"
| "to_int py_int PNone = Inl TypeError"

fun parse :: "pyval \<Rightarrow> error + string list" where
  "parse (PStr color_str) =
     (let colors = split_sep CHR '','' color_str
      in Inr (if length colors > 1 then colors else colors @ colors))"
| "parse _ = Inl AttributeError"


subsection \<open>Header\<close>

text \<open>
  \<open>title\<close> (lines 70 to 72) with \<open>str.center\<close>, which puts the extra space of an odd
  margin on the left when the width is odd too, and the header of lines 151 to 153:
  \<open>format_left\<close> is the format specification \<open><{fixed_width}\<close>, an error for a
  negative width.
\<close>

definition center :: "string \<Rightarrow> int \<Rightarrow> string" where
  "center text width =
     (let marg = width - int (length text)
      in if marg \<le> 0 then text
         else (let left = marg div 2 + (if odd marg \<and> odd width then 1 else 0)
               in replicate (nat left) CHR '' '' @ text @ replicate (nat (marg - left)) CHR '' ''))"

definition title :: "string \<Rightarrow> int \<Rightarrow> string" where
  "title text width = ESC # ''[4m'' @ center text width @ ESC # ''[0m''"

definition format_left :: "string \<Rightarrow> int \<Rightarrow> error + string" where
  "format_left s width =
     (if width < 0 then Inl ValueError
      else Inr (s @ replicate (nat width - length s) CHR '' ''))"

definition header_row :: "string list \<Rightarrow> int \<Rightarrow> error + string" where
  "header_row header_titles fixed_width =
     (let original = title (header_titles ! 0) fixed_width;
          student = title (header_titles ! 1) fixed_width
      in case format_left original fixed_width of
           Inl e \<Rightarrow> Inl e
         | Inr original' \<Rightarrow> Inr (original' @ column_separator @ student))"

subsection \<open>The program\<close>

text \<open>
  \<open>main\<close> (lines 112 to 180). \<open>args\<close> holds the parsed command line, with \<open>PNone\<close> for an
  option that was not given; \<open>env\<close> holds what the program reads from outside: the
  configuration file, the width of the terminal, the files (a name is mapped to the
  lines of the file, or to nothing when the file does not exist), and the two library
  functions that are parameters. The result is an uncaught exception, or the outcome
  \<open>FileNotFound\<close> (the message of line 142 is printed), or the list \<open>diff_output\<close>,
  which the program joins with newlines and writes. The configuration is resolved
  first, in the order of lines 129 to 136; line 135 is repeated by line 136. The test
  of line 150 is always true, since \<open>parse\<close> returns a list, so the header row is always
  the first row.
\<close>

record args =
  file1 :: string
  file2 :: string
  arg_fixed_width :: pyval
  arg_color :: pyval
  arg_underline :: pyval
  arg_replace_color :: pyval
  arg_insert_color :: pyval
  arg_delete_color :: pyval
  arg_header_titles :: pyval

record env =
  config :: "string \<rightharpoonup> string"
  terminal_columns :: int
  files :: "string \<rightharpoonup> string list"
  colored_fn :: colored
  int_fn :: "string \<Rightarrow> int option"

datatype outcome = FileNotFound | Output "string list"

definition preprocess_file :: "(string \<rightharpoonup> string list) \<Rightarrow> string \<Rightarrow> string list option" where
  "preprocess_file fs filename = map_option (map preprocess_line) (fs filename)"

definition bind :: "error + 'a \<Rightarrow> ('a \<Rightarrow> error + 'b) \<Rightarrow> error + 'b" where
  "bind m f = (case m of Inl e \<Rightarrow> Inl e | Inr x \<Rightarrow> f x)"

definition diff_loop :: "colored \<Rightarrow> colors \<Rightarrow> pyval \<Rightarrow> pyval \<Rightarrow> int \<Rightarrow> string list \<Rightarrow> string list
                           \<Rightarrow> string list \<Rightarrow> error + string list" where
  "diff_loop colored colors color underline fixed_width orig_lines modified_lines diff_output =
     opcode_loop (render_pair colored colors color underline fixed_width) orig_lines modified_lines
       (get_opcodes orig_lines modified_lines) diff_output"

definition main :: "env \<Rightarrow> args \<Rightarrow> error + outcome" where
  "main e a =
     bind (get_config_value (int_fn e) (config e) ''fixed_width'' (arg_fixed_width a) PNone) (\<lambda>fw.
     bind (to_int (int_fn e) (calculate_fixed_width (terminal_columns e) fw)) (\<lambda>fixed_width.
     bind (get_config_value (int_fn e) (config e) ''color'' (arg_color a) (PBool True)) (\<lambda>color.
     bind (get_config_value (int_fn e) (config e) ''underline'' (arg_underline a) (PBool False)) (\<lambda>underline.
     bind (get_config_value (int_fn e) (config e) ''replace_color'' (arg_replace_color a)
             (PStr ''green,blue'')) (\<lambda>rc.
     bind (parse rc) (\<lambda>replace_colors.
     bind (get_config_value (int_fn e) (config e) ''insert_color'' (arg_insert_color a)
             (PStr ''yellow'')) (\<lambda>insert_color.
     bind (get_config_value (int_fn e) (config e) ''delete_color'' (arg_delete_color a)
             (PStr ''red'')) (\<lambda>delete_color.
     bind (get_config_value (int_fn e) (config e) ''header_titles'' (arg_header_titles a) PNone) (\<lambda>_.
     bind (get_config_value (int_fn e) (config e) ''header_titles'' (arg_header_titles a) PNone) (\<lambda>ht.
     bind (parse ht) (\<lambda>header_titles.
       (case (preprocess_file (files e) (file1 a), preprocess_file (files e) (file2 a)) of
          (Some orig_lines, Some modified_lines) \<Rightarrow>
            (let colors = \<lparr>replace_color_left = PStr (replace_colors ! 0),
                            replace_color_right = PStr (replace_colors ! 1),
                            insert_color = insert_color, delete_color = delete_color\<rparr>
             in bind (header_row header_titles fixed_width) (\<lambda>header.
                bind (diff_loop (colored_fn e) colors color underline fixed_width
                        orig_lines modified_lines [header]) (\<lambda>diff_output.
                  Inr (Output diff_output))))
        | _ \<Rightarrow> Inr FileNotFound))))))))))))"

section \<open>Reference definitions and example inputs\<close>

text \<open>
  The line-pair expander in the words of the specification: the pairs
  \<open>(left\<^sub>i, right\<^sub>i)\<close> for \<open>i\<close> below the larger of the two counts, with the empty string
  for a missing side (\<open>positional_pairs\<close>); the pairs that are not blank on both sides
  (\<open>forwarded_pairs\<close>); and the loop that hands every pair of a list to the classifier, in
  order, stopping at the first error (\<open>forward_all\<close>).
\<close>

definition positional_pairs :: "string list \<Rightarrow> string list \<Rightarrow> (string \<times> string) list" where
  "positional_pairs left right =
     map (\<lambda>i. (if i < length left then left ! i else [], if i < length right then right ! i else []))
       [0..<max (length left) (length right)]"

definition forwarded_pairs :: "string list \<Rightarrow> string list \<Rightarrow> (string \<times> string) list" where
  "forwarded_pairs left right =
     filter (\<lambda>(l, r). \<not> (strip l = [] \<and> strip r = [])) (positional_pairs left right)"

fun forward_all :: "(string \<Rightarrow> string \<Rightarrow> error + string list) \<Rightarrow> (string \<times> string) list
                      \<Rightarrow> string list \<Rightarrow> error + string list" where
  "forward_all classify [] diff_output = Inr diff_output"
| "forward_all classify ((l, r) # pairs) diff_output =
     (case classify l r of
        Inl e \<Rightarrow> Inl e
      | Inr rows \<Rightarrow> forward_all classify pairs (diff_output @ rows))"

text \<open>Inputs for the concrete evaluations: a \<open>colored\<close> that leaves the word unstyled, the
  default colours, two files that differ in spacing only, an environment and arguments.\<close>

definition plain :: colored where
  "plain w c = Inr w"



definition example_files :: "string \<rightharpoonup> string list" where
  "example_files =
     [''old.txt'' \<mapsto> [''the  cat sat'' @ [NL], ''on the mat'' @ [NL]],
      ''new.txt'' \<mapsto> [''the cat sat '' @ [NL], ''on  the mat'']]"

definition example_env :: "(string \<rightharpoonup> string) \<Rightarrow> env" where
  "example_env cfg =
     \<lparr>config = cfg, terminal_columns = 80, files = example_files, colored_fn = plain,
      int_fn = (\<lambda>s. None)\<rparr>"

definition example_args :: "pyval \<Rightarrow> args" where
  "example_args titles =
     \<lparr>file1 = ''old.txt'', file2 = ''new.txt'', arg_fixed_width = PInt 10, arg_color = PNone,
      arg_underline = PNone, arg_replace_color = PNone, arg_insert_color = PNone,
      arg_delete_color = PNone, arg_header_titles = titles\<rparr>"

section \<open>Properties of line preprocessing\<close>

definition is_word :: "string \<Rightarrow> bool" where
  "is_word w = (w \<noteq> [] \<and> (\<forall>c \<in> set w. \<not> isspace c))"

lemma isspace_space: "isspace CHR '' ''"
  by (simp add: isspace_def code_def)

lemma split_aux_words:
  "(\<forall>c \<in> set cur. \<not> isspace c) \<Longrightarrow> \<forall>w \<in> set (split_aux cur s). is_word w"
proof (induction s arbitrary: cur)
  case Nil
  then show ?case by (simp add: is_word_def)
next
  case (Cons a s)
  have e: "\<forall>w \<in> set (split_aux [] s). is_word w"
    by (rule Cons.IH) simp
  show ?case
  proof (cases "isspace a")
    case True
    then show ?thesis using e Cons.prems by (simp add: is_word_def)
  next
    case False
    have "\<forall>w \<in> set (split_aux (cur @ [a]) s). is_word w"
      by (rule Cons.IH) (use False Cons.prems in auto)
    then show ?thesis using False by simp
  qed
qed

lemma split_words: "\<forall>w \<in> set (split s). is_word w"
  unfolding split_def by (rule split_aux_words) simp

lemma split_aux_word_append:
  "\<forall>c \<in> set w. \<not> isspace c \<Longrightarrow> split_aux cur (w @ s) = split_aux (cur @ w) s"
  by (induction w arbitrary: cur) auto

lemma split_aux_join:
  "\<forall>w \<in> set ws. is_word w \<Longrightarrow> is_word cur \<Longrightarrow>
     split_aux cur (if ws = [] then [] else CHR '' '' # join '' '' ws) = cur # ws"
proof (induction ws arbitrary: cur)
  case Nil
  then show ?case by (simp add: is_word_def)
next
  case (Cons w ws)
  have w: "is_word w" and ws: "\<forall>w \<in> set ws. is_word w" using Cons.prems by auto
  have nsp: "\<forall>c \<in> set w. \<not> isspace c" using w by (simp add: is_word_def)
  have cur: "cur \<noteq> []" using Cons.prems by (simp add: is_word_def)
  show ?case
  proof (cases ws)
    case Nil
    have "split_aux [] (w @ []) = split_aux ([] @ w) []"
      by (rule split_aux_word_append [OF nsp])
    then show ?thesis using Nil cur w by (simp add: isspace_space is_word_def)
  next
    case (Cons v vs)
    have "split_aux [] (w @ CHR '' '' # join '' '' ws) = split_aux ([] @ w) (CHR '' '' # join '' '' ws)"
      by (rule split_aux_word_append [OF nsp])
    moreover have "split_aux w (CHR '' '' # join '' '' ws) = w # ws"
      using Cons.IH [OF ws w] Cons by simp
    ultimately show ?thesis using Cons cur by (simp add: isspace_space)
  qed
qed

lemma split_join:
  assumes "\<forall>w \<in> set ws. is_word w"
  shows "split (join '' '' ws) = ws"
proof (cases ws)
  case Nil
  then show ?thesis by (simp add: split_def)
next
  case (Cons w vs)
  have w: "is_word w" and vs: "\<forall>w \<in> set vs. is_word w" using assms Cons by auto
  have nsp: "\<forall>c \<in> set w. \<not> isspace c" using w by (simp add: is_word_def)
  have j: "join '' '' (w # vs) = w @ (if vs = [] then [] else CHR '' '' # join '' '' vs)"
    by (cases vs) simp_all
  have "split_aux [] (w @ (if vs = [] then [] else CHR '' '' # join '' '' vs))
        = split_aux ([] @ w) (if vs = [] then [] else CHR '' '' # join '' '' vs)"
    by (rule split_aux_word_append [OF nsp])
  then show ?thesis
    using split_aux_join [OF vs w] Cons j by (simp add: split_def)
qed

text \<open>
  C9: line preprocessing is idempotent: normalising the whitespace of an already
  normalised line leaves it unchanged, for every input string.
\<close>

theorem preprocess_line_idempotent:
  "preprocess_line (preprocess_line s) = preprocess_line s"
  unfolding preprocess_line_def by (simp add: split_join split_words)

section \<open>Properties of padding\<close>

text \<open>
  \<open>ansi_match\<close> finds a match exactly when the text starts with a string of the
  language of the pattern, and the rest of the text is then the same for every way of
  reading the match: the order in which a backtracking matcher tries them does not matter.
\<close>

lemma dropWhile_prefix_all:
  "\<forall>x \<in> set xs. P x \<Longrightarrow> dropWhile P (xs @ ys) = dropWhile P ys"
  by (induction xs) auto

lemma ansi_match_iff:
  "ansi_match s = Some r \<longleftrightarrow>
     (\<exists>d xs ys f. s = ESC # d # xs @ ys @ f # r \<and> in_range 64 95 d
        \<and> (\<forall>x \<in> set xs. in_range 48 63 x) \<and> (\<forall>y \<in> set ys. in_range 32 47 y)
        \<and> in_range 64 126 f)"
proof
  assume a: "ansi_match s = Some r"
  then obtain e d t where s: "s = e # d # t"
    by (auto simp: ansi_match_def split: list.splits)
  have ed: "e = ESC" "in_range 64 95 d"
    using a s by (auto simp: ansi_match_def split: if_splits)
  let ?xs = "takeWhile (in_range 48 63) t"
  let ?t' = "dropWhile (in_range 48 63) t"
  let ?ys = "takeWhile (in_range 32 47) ?t'"
  obtain f where f: "dropWhile (in_range 32 47) ?t' = f # r" "in_range 64 126 f"
    using a s ed by (auto simp: ansi_match_def split: list.splits if_splits)
  have "t = ?xs @ ?ys @ f # r"
    using f(1) by (metis takeWhile_dropWhile_id)
  moreover have "\<forall>x \<in> set ?xs. in_range 48 63 x" "\<forall>y \<in> set ?ys. in_range 32 47 y"
    by (auto dest: set_takeWhileD)
  ultimately show "\<exists>d xs ys f. s = ESC # d # xs @ ys @ f # r \<and> in_range 64 95 d
        \<and> (\<forall>x \<in> set xs. in_range 48 63 x) \<and> (\<forall>y \<in> set ys. in_range 32 47 y)
        \<and> in_range 64 126 f"
    using s ed f(2) by blast
next
  assume "\<exists>d xs ys f. s = ESC # d # xs @ ys @ f # r \<and> in_range 64 95 d
        \<and> (\<forall>x \<in> set xs. in_range 48 63 x) \<and> (\<forall>y \<in> set ys. in_range 32 47 y)
        \<and> in_range 64 126 f"
  then obtain d xs ys f where s: "s = ESC # d # xs @ ys @ f # r" and d: "in_range 64 95 d"
    and xs: "\<forall>x \<in> set xs. in_range 48 63 x" and ys: "\<forall>y \<in> set ys. in_range 32 47 y"
    and f: "in_range 64 126 f"
    by blast
  have nf: "\<not> in_range 48 63 f" "\<not> in_range 32 47 f" using f by (auto simp: in_range_def)
  have ny: "\<forall>y \<in> set ys. \<not> in_range 48 63 y" using ys by (auto simp: in_range_def)
  have 1: "dropWhile (in_range 48 63) (xs @ ys @ f # r) = ys @ f # r"
    using dropWhile_prefix_all [OF xs, of "ys @ f # r"] ny nf(1) by (cases ys) auto
  have 2: "dropWhile (in_range 32 47) (ys @ f # r) = f # r"
    using dropWhile_prefix_all [OF ys, of "f # r"] nf(2) by simp
  show "ansi_match s = Some r"
    unfolding s by (simp add: ansi_match_def d 1 2 f)
qed

lemma space_classes:
  "\<not> in_range 48 63 CHR '' ''" "in_range 32 47 CHR '' ''" "\<not> in_range 64 95 CHR '' ''"
  "\<not> in_range 64 126 CHR '' ''" "CHR '' '' \<noteq> ESC"
  by (simp_all add: in_range_def code_def ESC_def)

lemma dropWhile_param_spaces:
  "dropWhile (in_range 48 63) (r @ replicate n CHR '' '')
     = dropWhile (in_range 48 63) r @ replicate n CHR '' ''"
proof (induction r)
  case Nil
  then show ?case by (cases n) (simp_all add: space_classes)
next
  case (Cons a r)
  then show ?case by simp
qed

lemma dropWhile_inter_spaces:
  "dropWhile (in_range 32 47) (y @ replicate n CHR '' '')
     = (if dropWhile (in_range 32 47) y = [] then []
        else dropWhile (in_range 32 47) y @ replicate n CHR '' '')"
proof (induction y)
  case Nil
  have "\<forall>x \<in> set (replicate n CHR '' ''). in_range 32 47 x"
    by (simp add: space_classes)
  then have "dropWhile (in_range 32 47) (replicate n CHR '' '') = []"
    by (simp only: dropWhile_eq_Nil_conv)
  then show ?case by simp
next
  case (Cons a y)
  then show ?case by simp
qed


lemma dropWhile_inter_spaces_Nil:
  "dropWhile (in_range 32 47) y = [] \<Longrightarrow>
     dropWhile (in_range 32 47) (y @ replicate n CHR '' '') = []"
  using dropWhile_inter_spaces [of y n] by metis

lemma dropWhile_inter_spaces_Cons:
  "dropWhile (in_range 32 47) y = f # r \<Longrightarrow>
     dropWhile (in_range 32 47) (y @ replicate n CHR '' '') = f # (r @ replicate n CHR '' '')"
  using dropWhile_inter_spaces [of y n] by (metis append_Cons list.distinct(1))

lemma ansi_match_spaces:
  "ansi_match (s @ replicate n CHR '' '')
     = map_option (\<lambda>r. r @ replicate n CHR '' '') (ansi_match s)"
proof (cases s)
  case Nil
  then show ?thesis
    by (cases n; cases "n - 1") (simp_all add: ansi_match_def space_classes)
next
  case (Cons e t)
  note s = Cons
  show ?thesis
  proof (cases t)
    case Nil
    then show ?thesis using s
      by (cases n) (simp_all add: ansi_match_def space_classes)
  next
    case (Cons d r)
    let ?sp = "replicate n CHR '' ''"
    let ?y = "dropWhile (in_range 48 63) r"
    let ?z = "dropWhile (in_range 32 47) ?y"
    have full: "s @ ?sp = e # d # (r @ ?sp)" using s Cons by simp
    show ?thesis
    proof (cases "e = ESC \<and> in_range 64 95 d")
      case False
      then show ?thesis unfolding full using s Cons by (auto simp add: ansi_match_def)
    next
      case True
      have l: "ansi_match (s @ ?sp)
               = (case dropWhile (in_range 32 47) (?y @ ?sp) of [] \<Rightarrow> None
                  | f # r' \<Rightarrow> if in_range 64 126 f then Some r' else None)"
        unfolding full using True by (simp add: ansi_match_def dropWhile_param_spaces)
      have r: "ansi_match s
               = (case ?z of [] \<Rightarrow> None
                  | f # r' \<Rightarrow> if in_range 64 126 f then Some r' else None)"
        using True s Cons by (simp add: ansi_match_def)
      show ?thesis
      proof (cases ?z)
        case Nil
        show ?thesis
          by (simp only: l r dropWhile_inter_spaces_Nil [OF Nil] Nil list.case option.map)
      next
        case (Cons f r')
        show ?thesis
          by (cases "in_range 64 126 f")
             (simp_all only: l r dropWhile_inter_spaces_Cons [OF Cons] Cons list.case
                option.map if_True if_False)
      qed
    qed
  qed
qed

lemma strip_spaces: "strip_ansi_codes (replicate n CHR '' '') = replicate n CHR '' ''"
proof (induction n)
  case 0
  then show ?case by simp
next
  case (Suc n)
  have "ansi_match (CHR '' '' # replicate n CHR '' '') = None"
    by (cases n) (simp_all add: ansi_match_def space_classes)
  then show ?case using Suc by simp
qed

lemma strip_ansi_codes_spaces:
  "strip_ansi_codes (t @ replicate n CHR '' '') = strip_ansi_codes t @ replicate n CHR '' ''"
proof (induction t rule: strip_ansi_codes.induct)
  case 1
  then show ?case by (simp add: strip_spaces)
next
  case (2 c cs)
  show ?case
  proof (cases "ansi_match (c # cs)")
    case None
    then have "ansi_match ((c # cs) @ replicate n CHR '' '') = None"
      by (simp only: ansi_match_spaces option.map)
    then have "ansi_match (c # cs @ replicate n CHR '' '') = None" by simp
    then show ?thesis using None 2 by simp
  next
    case (Some r)
    then have "ansi_match ((c # cs) @ replicate n CHR '' '') = Some (r @ replicate n CHR '' '')"
      by (simp only: ansi_match_spaces option.map)
    then have "ansi_match (c # cs @ replicate n CHR '' '') = Some (r @ replicate n CHR '' '')"
      by simp
    then show ?thesis using Some 2 by simp
  qed
qed

text \<open>
  C10: padding never truncates: the padded text has the original as a prefix, its visible
  length (after stripping ANSI escape codes) is the maximum of the width and the visible
  length of the original, and a text whose visible length exceeds the width is returned
  unchanged.
\<close>

theorem pad_text_never_truncates:
  "prefix t (pad_text t w)
   \<and> int (length (strip_ansi_codes (pad_text t w))) = max w (int (length (strip_ansi_codes t)))
   \<and> (w < int (length (strip_ansi_codes t)) \<longrightarrow> pad_text t w = t)"
  by (simp add: pad_text_def Let_def strip_ansi_codes_spaces)

theorem pad_text_never_truncates_witness:
  "(2::int) < int (length (strip_ansi_codes ''abc'')) \<and> pad_text ''abc'' 2 = ''abc''"
  using pad_text_never_truncates [of "''abc''" 2] by (simp add: ansi_match_def ESC_def)

section \<open>Properties of the sequence aligner\<close>

definition positions :: "'a list \<Rightarrow> 'a \<Rightarrow> nat list" where
  "positions b x = filter (\<lambda>i. b ! i = x) [0..<length b]"

lemma fold_enumerate_b2j:
  "fold (\<lambda>(i, elt) b2j. b2j(elt \<mapsto> (case b2j elt of None \<Rightarrow> [] | Some indices \<Rightarrow> indices) @ [i]))
       (enumerate n xs) m x
   = (let js = filter (\<lambda>i. xs ! (i - n) = x) [n..<n + length xs]
      in if js = [] then m x else Some ((case m x of None \<Rightarrow> [] | Some old \<Rightarrow> old) @ js))"
proof (induction xs arbitrary: n m)
  case Nil
  then show ?case by simp
next
  case (Cons y ys)
  let ?f = "\<lambda>(i, elt) b2j. b2j(elt \<mapsto> (case b2j elt of None \<Rightarrow> [] | Some indices \<Rightarrow> indices) @ [i])"
  let ?m' = "m(y \<mapsto> (case m y of None \<Rightarrow> [] | Some indices \<Rightarrow> indices) @ [n])"
  define js' where "js' = filter (\<lambda>i. ys ! (i - Suc n) = x) [Suc n..<Suc n + length ys]"
  define js where "js = filter (\<lambda>i. (y # ys) ! (i - n) = x) [n..<n + length (y # ys)]"
  have step: "fold ?f (enumerate n (y # ys)) m x = fold ?f (enumerate (Suc n) ys) ?m' x"
    by simp
  have up: "[n..<n + length (y # ys)] = n # [Suc n..<Suc n + length ys]"
    using upt_conv_Cons [of n "n + length (y # ys)"] by simp
  have nth: "(y # ys) ! (i - n) = ys ! (i - Suc n)" if "i \<in> set [Suc n..<Suc n + length ys]" for i
  proof -
    have "i - n = Suc (i - Suc n)" using that by auto
    then show ?thesis by simp
  qed
  have fl: "filter (\<lambda>i. (y # ys) ! (i - n) = x) [Suc n..<Suc n + length ys] = js'"
    unfolding js'_def by (rule filter_cong) (simp_all only: nth)
  have js: "js = (if y = x then [n] else []) @ js'"
  proof -
    have "js = (if y = x then n # js' else js')"
      unfolding js_def up by (simp only: filter.simps fl diff_self_eq_0 nth_Cons_0)
    then show ?thesis by simp
  qed
  have ih: "fold ?f (enumerate (Suc n) ys) ?m' x
            = (if js' = [] then ?m' x else Some ((case ?m' x of None \<Rightarrow> [] | Some old \<Rightarrow> old) @ js'))"
    unfolding Cons.IH js'_def by (simp only: Let_def)
  have goal: "fold ?f (enumerate n (y # ys)) m x
            = (if js = [] then m x else Some ((case m x of None \<Rightarrow> [] | Some old \<Rightarrow> old) @ js))"
    unfolding step ih js by (cases "y = x") (simp_all split: option.splits)
  show ?case using goal unfolding js_def by (simp only: Let_def)
qed

lemma b2j_build_eq:
  "b2j_build b x = (if positions b x = [] then None else Some (positions b x))"
  unfolding b2j_build_def fold_enumerate_b2j positions_def by (simp add: Let_def)

lemma chain_b_eq:
  "chain_b b x =
     (if positions b x = [] \<or> (200 \<le> length b \<and> length b div 100 + 1 < length (positions b x))
      then None else Some (positions b x))"
  unfolding chain_b_def by (simp add: Let_def b2j_build_eq)

definition b2j_sound :: "'a list \<Rightarrow> ('a \<rightharpoonup> nat list) \<Rightarrow> bool" where
  "b2j_sound b b2j = (\<forall>x js j. b2j x = Some js \<longrightarrow> j \<in> set js \<longrightarrow> b ! j = x)"

lemma chain_b_sound: "b2j_sound b (chain_b b)"
  unfolding b2j_sound_def chain_b_eq by (auto simp: positions_def split: if_splits)

definition match_ok :: "'a list \<Rightarrow> 'a list \<Rightarrow> match \<Rightarrow> bool" where
  "match_ok a b m = (case m of (i, j, k) \<Rightarrow> \<forall>t<k. a ! (i + t) = b ! (j + t))"

definition j2len_match :: "'a list \<Rightarrow> 'a list \<Rightarrow> nat \<Rightarrow> (nat \<rightharpoonup> nat) \<Rightarrow> bool" where
  "j2len_match a b i j2len = (\<forall>j v. j2len j = Some v \<longrightarrow> match_ok a b (i - v, j + 1 - v, v))"

lemma match_ok_step:
  assumes "match_ok a b (i - v, j - v, v)" "v \<le> i" "v \<le> j" "a ! i = b ! j"
  shows "match_ok a b (Suc i - Suc v, Suc j - Suc v, Suc v)"
  unfolding match_ok_def
proof (clarsimp)
  fix t assume t: "t < Suc v"
  show "a ! (i - v + t) = b ! (j - v + t)"
  proof (cases "t < v")
    case True
    then show ?thesis using assms(1) by (simp add: match_ok_def)
  next
    case False
    then have "t = v" using t by simp
    then show ?thesis using assms(2,3,4) by simp
  qed
qed

lemma inner_loop_match:
  assumes "j2len_ok alo blo bhi i j2len" "j2len_match a b i j2len"
    and "\<forall>j \<in> set js. b ! j = a ! i"
    and "j2len_match a b (Suc i) new" "match_ok a b best"
  shows "j2len_match a b (Suc i) (fst (inner_loop j2len i blo bhi js (new, best)))
         \<and> match_ok a b (snd (inner_loop j2len i blo bhi js (new, best)))"
  using assms(3,4,5)
proof (induction js arbitrary: new best)
  case Nil
  then show ?case by simp
next
  case (Cons j js)
  obtain besti bestj bestsize where best: "best = (besti, bestj, bestsize)"
    by (cases best) auto
  have js: "\<forall>j \<in> set js. b ! j = a ! i" and j: "a ! i = b ! j" using Cons.prems(1) by auto
  show ?case
  proof (cases "j < blo")
    case True
    then show ?thesis using Cons.IH [OF js Cons.prems(2,3)] best by simp
  next
    case False
    note nlo = False
    show ?thesis
    proof (cases "j \<ge> bhi")
      case True
      then show ?thesis using Cons.prems best nlo by simp
    next
      case False
      define k where "k = (case (if j = 0 then None else j2len (j - 1)) of None \<Rightarrow> 0 | Some v \<Rightarrow> v) + 1"
      have km: "match_ok a b (Suc i - k, Suc j - k, k)"
      proof (cases "if j = 0 then None else j2len (j - 1)")
        case None
        then have "k = 1" by (simp add: k_def)
        then show ?thesis using j by (simp add: match_ok_def)
      next
        case (Some v)
        then have v: "j2len (j - 1) = Some v" "j \<noteq> 0" by (auto split: if_splits)
        have b: "v + alo \<le> i \<and> v + blo \<le> (j - 1) + 1"
          using assms(1) [unfolded j2len_ok_def, rule_format, OF v(1)] by simp
        have m: "match_ok a b (i - v, j - v, v)"
          using assms(2) [unfolded j2len_match_def, rule_format, OF v(1)] v(2) by simp
        have "k = Suc v" using Some by (simp add: k_def)
        then show ?thesis using match_ok_step [OF m _ _ j] b v(2) by simp
      qed
      have new': "j2len_match a b (Suc i) (new(j \<mapsto> k))"
        using Cons.prems(2) km by (auto simp: j2len_match_def)
      have best': "match_ok a b (i + 1 - k, j + 1 - k, k)"
        using km by simp
      show ?thesis
      proof (cases "k > bestsize")
        case True
        have eq: "inner_loop j2len i blo bhi (j # js) (new, best)
              = inner_loop j2len i blo bhi js (new(j \<mapsto> k), i + 1 - k, j + 1 - k, k)"
          using True nlo False best by (simp add: k_def Let_def)
        show ?thesis unfolding eq by (rule Cons.IH [OF js new' best'])
      next
        case gt: False
        have eq: "inner_loop j2len i blo bhi (j # js) (new, best)
              = inner_loop j2len i blo bhi js (new(j \<mapsto> k), best)"
          using gt nlo False best by (simp add: k_def Let_def)
        show ?thesis unfolding eq by (rule Cons.IH [OF js new' Cons.prems(3)])
      qed
    qed
  qed
qed

lemma row_match:
  assumes "j2len_ok alo blo bhi i (fst st)" "j2len_match a b i (fst st)" "match_ok a b (snd st)"
    and "b2j_sound b b2j"
  shows "j2len_match a b (Suc i) (fst (row a b2j blo bhi st i))
         \<and> match_ok a b (snd (row a b2j blo bhi st i))"
  unfolding row_def
proof (rule inner_loop_match [OF assms(1) assms(2) _ _ assms(3)])
  show "\<forall>j\<in>set (case b2j (a ! i) of None \<Rightarrow> [] | Some js \<Rightarrow> js). b ! j = a ! i"
  proof (cases "b2j (a ! i)")
    case None
    then show ?thesis by simp
  next
    case (Some js)
    then show ?thesis using assms(4) [unfolded b2j_sound_def, rule_format, OF Some] by simp
  qed
  show "j2len_match a b (Suc i) Map.empty" by (simp add: j2len_match_def)
qed

lemma rows_match:
  assumes "j2len_ok alo blo bhi i (fst st)" "best_ok alo ahi blo bhi (snd st)" "alo \<le> i"
    and "j2len_match a b i (fst st)" "match_ok a b (snd st)" "b2j_sound b b2j"
  shows "match_ok a b (snd (foldl (row a b2j blo bhi) st [i..<ahi]))"
  using assms(1-5)
proof (induction "ahi - i" arbitrary: i st)
  case 0
  then show ?case by simp
next
  case (Suc n)
  then have lt: "i < ahi" by simp
  have n: "n = ahi - Suc i" using Suc.hyps(2) by simp
  have r: "j2len_ok alo blo bhi (Suc i) (fst (row a b2j blo bhi st i))
         \<and> best_ok alo ahi blo bhi (snd (row a b2j blo bhi st i))"
    by (rule row_ok [OF Suc.prems(1) Suc.prems(2) lt Suc.prems(3)])
  have m: "j2len_match a b (Suc i) (fst (row a b2j blo bhi st i))
         \<and> match_ok a b (snd (row a b2j blo bhi st i))"
    by (rule row_match [OF Suc.prems(1) Suc.prems(4) Suc.prems(5) assms(6)])
  have "match_ok a b
         (snd (foldl (row a b2j blo bhi) (row a b2j blo bhi st i) [Suc i..<ahi]))"
    by (rule Suc.hyps(1) [OF n]) (use r m Suc.prems(3) in simp_all)
  moreover have "[i..<ahi] = i # [Suc i..<ahi]" using lt by (simp add: upt_conv_Cons)
  ultimately show ?case by simp
qed

lemma main_loop_match:
  "b2j_sound b b2j \<Longrightarrow> match_ok a b (snd (main_loop a b2j alo ahi blo bhi))"
  unfolding main_loop_def
  by (rule rows_match [where alo = alo and ahi = ahi])
     (simp_all add: j2len_ok_def best_ok_def j2len_match_def match_ok_def)

lemma extend_left_match:
  "match_ok a b m \<Longrightarrow> match_ok a b (extend_left a b junk alo blo m)"
proof (induction a b junk alo blo m rule: extend_left.induct)
  case (1 a b junk alo blo besti bestj bestsize)
  show ?case
  proof (cases "besti > alo \<and> bestj > blo \<and> isbjunk (b ! (bestj - 1)) = junk
         \<and> a ! (besti - 1) = b ! (bestj - 1)")
    case True
    have "match_ok a b (besti - 1, bestj - 1, bestsize + 1)"
      unfolding match_ok_def
    proof (clarsimp)
      fix t assume "t < Suc bestsize"
      then show "a ! (besti - Suc 0 + t) = b ! (bestj - Suc 0 + t)"
        using True 1(2) by (cases t) (auto simp: match_ok_def)
    qed
    then show ?thesis using 1(1) True by (subst extend_left.simps) simp
  next
    case False
    then show ?thesis using 1(2) by (subst extend_left.simps) auto
  qed
qed

lemma extend_right_match:
  "match_ok a b m \<Longrightarrow> match_ok a b (extend_right a b junk ahi bhi m)"
proof (induction a b junk ahi bhi m rule: extend_right.induct)
  case (1 a b junk ahi bhi besti bestj bestsize)
  show ?case
  proof (cases "besti + bestsize < ahi \<and> bestj + bestsize < bhi \<and> isbjunk (b ! (bestj + bestsize)) = junk
         \<and> a ! (besti + bestsize) = b ! (bestj + bestsize)")
    case True
    have "match_ok a b (besti, bestj, bestsize + 1)"
      using True 1(2) by (auto simp: match_ok_def less_Suc_eq)
    then show ?thesis using 1(1) True by (subst extend_right.simps) simp
  next
    case False
    then show ?thesis using 1(2) by (subst extend_right.simps) auto
  qed
qed

lemma find_longest_match_match:
  "b2j_sound b b2j \<Longrightarrow> match_ok a b (find_longest_match a b b2j alo ahi blo bhi)"
  unfolding find_longest_match_def
  by (intro extend_right_match extend_left_match main_loop_match)

definition box_of :: "match \<Rightarrow> box" where
  "box_of m = (case m of (i, j, k) \<Rightarrow> (i, i + k, j, j + k))"

definition before :: "box \<Rightarrow> box \<Rightarrow> bool" where
  "before p q = (case p of (alo, ahi, blo, bhi) \<Rightarrow> case q of (alo', ahi', blo', bhi') \<Rightarrow>
                   ahi \<le> alo' \<and> bhi \<le> blo')"

definition apart :: "box \<Rightarrow> box \<Rightarrow> bool" where
  "apart p q = (before p q \<or> before q p)"

definition inside :: "box \<Rightarrow> box \<Rightarrow> bool" where
  "inside p q = (case p of (alo, ahi, blo, bhi) \<Rightarrow> case q of (alo', ahi', blo', bhi') \<Rightarrow>
                   alo' \<le> alo \<and> ahi \<le> ahi' \<and> blo' \<le> blo \<and> bhi \<le> bhi')"

definition good_block :: "'a list \<Rightarrow> 'a list \<Rightarrow> match \<Rightarrow> bool" where
  "good_block a b m = (case m of (i, j, k) \<Rightarrow>
                         0 < k \<and> i + k \<le> length a \<and> j + k \<le> length b \<and> match_ok a b m)"

definition good_box :: "'a list \<Rightarrow> 'a list \<Rightarrow> box \<Rightarrow> bool" where
  "good_box a b q = (case q of (alo, ahi, blo, bhi) \<Rightarrow> ahi \<le> length a \<and> bhi \<le> length b)"

lemma apart_sym: "apart p q \<Longrightarrow> apart q p"
  by (auto simp: apart_def)

lemma apart_inside: "apart x q \<Longrightarrow> inside s q \<Longrightarrow> apart x s"
  by (cases x; cases q; cases s) (auto simp: apart_def before_def inside_def)

lemma sorted_wrt_refine:
  assumes "sorted_wrt apart (xs @ q # ys)" "\<forall>s \<in> set subs. inside s q" "sorted_wrt apart subs"
  shows "sorted_wrt apart (xs @ subs @ ys)"
proof -
  have 1: "sorted_wrt apart xs" "sorted_wrt apart ys"
    and 2: "\<forall>x \<in> set xs. apart x q" "\<forall>y \<in> set ys. apart q y"
    and 3: "\<forall>x \<in> set xs. \<forall>y \<in> set ys. apart x y"
    using assms(1) by (auto simp: sorted_wrt_append)
  have a: "\<forall>x \<in> set xs. \<forall>s \<in> set subs. apart x s"
    using 2(1) assms(2) apart_inside by blast
  have b: "\<forall>s \<in> set subs. \<forall>y \<in> set ys. apart s y"
    using 2(2) assms(2) apart_inside apart_sym by blast
  show ?thesis using 1 3 a b assms(3) by (auto simp: sorted_wrt_append)
qed

definition queue_inv :: "'a list \<Rightarrow> 'a list \<Rightarrow> box list \<Rightarrow> match list \<Rightarrow> bool" where
  "queue_inv a b queue mbs =
     ((\<forall>m \<in> set mbs. good_block a b m) \<and> (\<forall>q \<in> set queue. good_box a b q)
      \<and> sorted_wrt apart (map box_of mbs @ queue))"

lemma queue_step_inv:
  assumes inv: "queue_inv a b ((alo, ahi, blo, bhi) # queue) mbs"
    and ok: "best_ok alo ahi blo bhi (i, j, k)" and m: "match_ok a b (i, j, k)" and k: "k \<noteq> 0"
  shows "queue_inv a b
           ((if i + k < ahi \<and> j + k < bhi then [(i + k, ahi, j + k, bhi)] else [])
            @ (if alo < i \<and> blo < j then [(alo, i, blo, j)] else []) @ queue)
           (mbs @ [(i, j, k)])"
proof -
  let ?R = "if i + k < ahi \<and> j + k < bhi then [(i + k, ahi, j + k, bhi)] else []"
  let ?L = "if alo < i \<and> blo < j then [(alo, i, blo, j)] else []"
  let ?subs = "box_of (i, j, k) # ?R @ ?L"
  have b: "alo \<le> i" "blo \<le> j" "i + k \<le> ahi" "j + k \<le> bhi"
    using ok k by (auto simp: best_ok_def)
  have q: "ahi \<le> length a" "bhi \<le> length b"
    using inv by (auto simp: queue_inv_def good_box_def)
  have g: "good_block a b (i, j, k)"
    using b q m k by (auto simp: good_block_def)
  have gq: "\<forall>q \<in> set (?R @ ?L @ queue). good_box a b q"
    using inv b q by (auto simp: queue_inv_def good_box_def)
  have ins: "\<forall>s \<in> set ?subs. inside s (alo, ahi, blo, bhi)"
    using b by (auto simp: inside_def box_of_def)
  have srt: "sorted_wrt apart ?subs"
    using b by (auto simp: apart_def before_def box_of_def)
  have "sorted_wrt apart (map box_of mbs @ (alo, ahi, blo, bhi) # queue)"
    using inv by (simp add: queue_inv_def)
  then have "sorted_wrt apart (map box_of mbs @ ?subs @ queue)"
    using ins srt by (rule sorted_wrt_refine)
  then have "sorted_wrt apart (map box_of (mbs @ [(i, j, k)]) @ (?R @ ?L @ queue))"
    by simp
  then show ?thesis using g gq inv unfolding queue_inv_def by simp
qed

lemma queue_inv_drop:
  "queue_inv a b (q # queue) mbs \<Longrightarrow> queue_inv a b queue mbs"
  by (auto simp: queue_inv_def sorted_wrt_append)

lemma queue_loop_inv:
  "b2j_sound b b2j \<Longrightarrow> queue_inv a b queue mbs \<Longrightarrow> queue_inv a b [] (queue_loop a b b2j queue mbs)"
proof (induction a b b2j queue mbs rule: queue_loop.induct)
  case (1 a b b2j matching_blocks)
  then show ?case by (simp add: queue_loop.simps)
next
  case (2 a b b2j alo ahi blo bhi queue matching_blocks)
  obtain i j k where f: "find_longest_match a b b2j alo ahi blo bhi = (i, j, k)"
    by (cases "find_longest_match a b b2j alo ahi blo bhi") auto
  have ok: "best_ok alo ahi blo bhi (i, j, k)"
    using find_longest_match_ok [of alo ahi blo bhi a b b2j] f by simp
  have m: "match_ok a b (i, j, k)"
    using find_longest_match_match [OF 2(3), of a alo ahi blo bhi] f by simp
  show ?case
  proof (cases "k \<noteq> 0")
    case True
    have "queue_inv a b [] (queue_loop a b b2j
           ((if i + k < ahi \<and> j + k < bhi then [(i + k, ahi, j + k, bhi)] else [])
            @ (if alo < i \<and> blo < j then [(alo, i, blo, j)] else []) @ queue)
           (matching_blocks @ [(i, j, k)]))"
      by (rule 2(1) [OF f [symmetric] refl True 2(3) queue_step_inv [OF 2(4) ok m True]])
    then show ?thesis using f True by (subst queue_loop.simps) simp
  next
    case False
    have "queue_inv a b [] (queue_loop a b b2j queue matching_blocks)"
      by (rule 2(2) [OF f [symmetric] refl False 2(3) queue_inv_drop [OF 2(4)]])
    then show ?thesis using f False by (subst queue_loop.simps) simp
  qed
qed

subsection \<open>Sorting the blocks\<close>

definition mbefore :: "match \<Rightarrow> match \<Rightarrow> bool" where
  "mbefore m m' = before (box_of m) (box_of m')"

lemma sorted_wrt_apart_set:
  assumes "sorted_wrt (\<lambda>x y. apart (box_of x) (box_of y)) xs" "\<forall>m \<in> set xs. good_block a b m"
  shows "distinct xs \<and> (\<forall>x \<in> set xs. \<forall>y \<in> set xs. x \<noteq> y \<longrightarrow> apart (box_of x) (box_of y))"
  using assms
proof (induction xs)
  case Nil
  then show ?case by simp
next
  case (Cons x xs)
  have irr: "\<not> apart (box_of x) (box_of x)"
    using Cons.prems(2) by (cases x) (auto simp: good_block_def apart_def before_def box_of_def)
  have "x \<notin> set xs" using Cons.prems(1) irr by auto
  moreover have "\<forall>y \<in> set xs. apart (box_of x) (box_of y) \<and> apart (box_of y) (box_of x)"
    using Cons.prems(1) apart_sym by auto
  ultimately show ?case using Cons by auto
qed

lemma sorted_wrt_from_set:
  assumes "distinct xs" "\<forall>x \<in> set xs. \<forall>y \<in> set xs. x \<noteq> y \<longrightarrow> R x y"
  shows "sorted_wrt R xs"
  using assms by (induction xs) auto

lemma sorted_wrt_conj:
  "sorted_wrt P xs \<Longrightarrow> sorted_wrt Q xs \<Longrightarrow> sorted_wrt (\<lambda>x y. P x y \<and> Q x y) xs"
  by (induction xs) auto

lemma lex_apart_before:
  assumes "x \<le> y" "apart (box_of x) (box_of y)" "good_block a b x" "good_block a b y"
  shows "mbefore x y"
proof -
  obtain i j k i' j' k' where x: "x = (i, j, k)" and y: "y = (i', j', k')"
    by (cases x, cases y) auto
  have "i \<le> i'" using assms(1) x y by (auto simp: less_eq_prod_def)
  moreover have "0 < k'" using assms(4) y by (simp add: good_block_def)
  ultimately have "\<not> before (box_of y) (box_of x)"
    using x y by (auto simp: before_def box_of_def)
  then show ?thesis using assms(2) by (simp add: apart_def mbefore_def)
qed

lemma sort_blocks_chain:
  assumes "queue_inv a b [] mbs"
  shows "sorted_wrt mbefore (sort mbs) \<and> (\<forall>m \<in> set (sort mbs). good_block a b m)"
proof -
  have g: "\<forall>m \<in> set mbs. good_block a b m"
    and s: "sorted_wrt (\<lambda>x y. apart (box_of x) (box_of y)) mbs"
    using assms by (auto simp: queue_inv_def sorted_wrt_map)
  have d: "distinct mbs \<and> (\<forall>x \<in> set mbs. \<forall>y \<in> set mbs. x \<noteq> y \<longrightarrow> apart (box_of x) (box_of y))"
    using sorted_wrt_apart_set [OF s g] .
  have "sorted_wrt (\<lambda>x y. apart (box_of x) (box_of y)) (sort mbs)"
    by (rule sorted_wrt_from_set) (use d in auto)
  moreover have "sorted_wrt (\<le>) (sort mbs)" by simp
  ultimately have "sorted_wrt (\<lambda>x y. x \<le> y \<and> apart (box_of x) (box_of y)) (sort mbs)"
    using sorted_wrt_conj by blast
  then have "sorted_wrt mbefore (sort mbs)"
  proof (rule sorted_wrt_mono_rel [rotated])
    fix x y assume "x \<in> set (sort mbs)" "y \<in> set (sort mbs)" "x \<le> y \<and> apart (box_of x) (box_of y)"
    then show "mbefore x y" using lex_apart_before [of x y a b] g by auto
  qed
  then show ?thesis using g by simp
qed

subsection \<open>Monotone block lists\<close>

fun mono_blocks :: "nat \<Rightarrow> nat \<Rightarrow> match list \<Rightarrow> bool" where
  "mono_blocks i j [] = True"
| "mono_blocks i j ((ai, bj, sz) # rest) = (i \<le> ai \<and> j \<le> bj \<and> mono_blocks (ai + sz) (bj + sz) rest)"

lemma mono_blocks_weaken:
  "mono_blocks i j bs \<Longrightarrow> i' \<le> i \<Longrightarrow> j' \<le> j \<Longrightarrow> mono_blocks i' j' bs"
  by (cases bs) auto

lemma chain_mono_blocks:
  assumes "sorted_wrt mbefore bs" "\<forall>m \<in> set bs. good_block a b m"
    and "\<forall>m \<in> set bs. mbefore (i0, j0, k0) m" "i0 + k0 \<le> length a" "j0 + k0 \<le> length b"
  shows "mono_blocks (i0 + k0) (j0 + k0) (bs @ [(length a, length b, 0)])"
  using assms
proof (induction bs arbitrary: i0 j0 k0)
  case Nil
  then show ?case by simp
next
  case (Cons m bs)
  obtain i j k where m: "m = (i, j, k)" by (cases m) auto
  have le: "i0 + k0 \<le> i" "j0 + k0 \<le> j"
    using Cons.prems(3) m by (auto simp: mbefore_def before_def box_of_def)
  have g: "i + k \<le> length a" "j + k \<le> length b"
    using Cons.prems(2) m by (auto simp: good_block_def)
  have "mono_blocks (i + k) (j + k) (bs @ [(length a, length b, 0)])"
    by (rule Cons.IH) (use Cons.prems m g in auto)
  then show ?case using le m by simp
qed

lemma collapse_mono:
  "mono_blocks (i1 + k1) (j1 + k1) (rest @ [s]) \<Longrightarrow> mono_blocks i1 j1 (collapse (i1, j1, k1) rest @ [s])"
proof (induction rest arbitrary: i1 j1 k1)
  case Nil
  then show ?case by (cases s) auto
next
  case (Cons m rest)
  obtain i2 j2 k2 where m: "m = (i2, j2, k2)" by (cases m) auto
  have le: "i1 + k1 \<le> i2" "j1 + k1 \<le> j2"
    and r: "mono_blocks (i2 + k2) (j2 + k2) (rest @ [s])"
    using Cons.prems m by auto
  show ?case
  proof (cases "i1 + k1 = i2 \<and> j1 + k1 = j2")
    case True
    have "i1 + (k1 + k2) = i2 + k2" "j1 + (k1 + k2) = j2 + k2" using True by auto
    then have "mono_blocks (i1 + (k1 + k2)) (j1 + (k1 + k2)) (rest @ [s])"
      using r by (simp only:)
    then have "mono_blocks i1 j1 (collapse (i1, j1, k1 + k2) rest @ [s])"
      by (rule Cons.IH)
    then show ?thesis using True m by simp
  next
    case False
    have "mono_blocks i2 j2 (collapse (i2, j2, k2) rest @ [s])"
      using r by (rule Cons.IH)
    then have "mono_blocks (i1 + k1) (j1 + k1) (collapse (i2, j2, k2) rest @ [s])"
      using le by (rule mono_blocks_weaken)
    moreover from this have "mono_blocks i1 j1 (collapse (i2, j2, k2) rest @ [s])"
      by (rule mono_blocks_weaken) simp_all
    ultimately show ?thesis using False m by auto
  qed
qed

lemma queue_loop_initial: "queue_inv a b [(0, length a, 0, length b)] []"
  by (simp add: queue_inv_def good_box_def)

lemma sorted_blocks:
  "sorted_wrt mbefore (sort (queue_loop a b (chain_b b) [(0, length a, 0, length b)] []))
   \<and> (\<forall>m \<in> set (sort (queue_loop a b (chain_b b) [(0, length a, 0, length b)] [])). good_block a b m)"
  by (rule sort_blocks_chain [OF queue_loop_inv [OF chain_b_sound queue_loop_initial]])

lemma get_matching_blocks_mono: "mono_blocks 0 0 (get_matching_blocks a b)"
proof -
  let ?bs = "sort (queue_loop a b (chain_b b) [(0, length a, 0, length b)] [])"
  have "mono_blocks (0 + 0) (0 + 0) (?bs @ [(length a, length b, 0)])"
    by (rule chain_mono_blocks [of _ a b])
       (use sorted_blocks [of a b] in \<open>auto simp: mbefore_def before_def box_of_def\<close>)
  then have "mono_blocks 0 0 (collapse (0, 0, 0) ?bs @ [(length a, length b, 0)])"
    by (rule collapse_mono)
  then show ?thesis by (simp add: get_matching_blocks_def Let_def)
qed


fun contiguous :: "nat \<Rightarrow> nat \<Rightarrow> opcode list \<Rightarrow> nat \<Rightarrow> nat \<Rightarrow> bool" where
  "contiguous i j [] la lb = (i = la \<and> j = lb)"
| "contiguous i j ((t, i1, i2, j1, j2) # ops) la lb =
     (i1 = i \<and> j1 = j \<and> i1 \<le> i2 \<and> j1 \<le> j2 \<and> contiguous i2 j2 ops la lb)"

fun ends :: "nat \<Rightarrow> nat \<Rightarrow> match list \<Rightarrow> nat \<times> nat" where
  "ends i j [] = (i, j)"
| "ends i j ((ai, bj, sz) # rest) = ends (ai + sz) (bj + sz) rest"

lemma ends_snoc: "ends i j (bs @ [(ai, bj, sz)]) = (ai + sz, bj + sz)"
  by (induction i j bs rule: ends.induct) auto

lemma opcodes_contiguous:
  "mono_blocks i j bs \<Longrightarrow>
     contiguous i j (opcodes_loop i j bs) (fst (ends i j bs)) (snd (ends i j bs))"
proof (induction i j bs rule: opcodes_loop.induct)
  case (1 i j)
  then show ?case by simp
next
  case (2 i j ai bj sz rest)
  then have le: "i \<le> ai" "j \<le> bj" and r: "mono_blocks (ai + sz) (bj + sz) rest" by auto
  have ih: "contiguous (ai + sz) (bj + sz) (opcodes_loop (ai + sz) (bj + sz) rest)
              (fst (ends i j ((ai, bj, sz) # rest))) (snd (ends i j ((ai, bj, sz) # rest)))"
    using 2(1) [OF r] by simp
  have eq: "contiguous ai bj
             ((if sz \<noteq> 0 then [(Equal, ai, ai + sz, bj, bj + sz)] else [])
              @ opcodes_loop (ai + sz) (bj + sz) rest)
             (fst (ends i j ((ai, bj, sz) # rest))) (snd (ends i j ((ai, bj, sz) # rest)))"
    using ih by (cases "sz = 0") simp_all
  show ?case
  proof (cases "i < ai \<or> j < bj")
    case True
    then show ?thesis using eq le by (auto simp del: ends.simps)
  next
    case False
    then have "i = ai" "j = bj" using le by auto
    then show ?thesis using eq by (simp del: ends.simps)
  qed
qed

lemma contiguous_le: "contiguous i j ops la lb \<Longrightarrow> i \<le> la \<and> j \<le> lb"
  by (induction i j ops la lb rule: contiguous.induct) auto

lemma slice_append: "i \<le> m \<Longrightarrow> m \<le> n \<Longrightarrow> slice xs i m @ slice xs m n = slice xs i n"
proof -
  assume a: "i \<le> m" "m \<le> n"
  have "take ((m - i) + (n - m)) (drop i xs)
        = take (m - i) (drop i xs) @ take (n - m) (drop (m - i) (drop i xs))"
    by (rule take_add)
  moreover have "(m - i) + (n - m) = n - i" "m - i + i = m" using a by auto
  ultimately show ?thesis by (simp add: slice_def)
qed

lemma reconstruct_left:
  "contiguous i j ops la lb \<Longrightarrow>
     concat (map (\<lambda>(t, i1, i2, j1, j2). slice a i1 i2) ops) = slice a i la"
proof (induction i j ops la lb rule: contiguous.induct)
  case (1 i j la lb)
  then show ?case by (simp add: slice_def)
next
  case (2 i j t i1 i2 j1 j2 ops la lb)
  then have c: "contiguous i2 j2 ops la lb" and e: "i1 = i" "i \<le> i2" by auto
  have "i2 \<le> la" using contiguous_le [OF c] by simp
  then have "slice a i i2 @ slice a i2 la = slice a i la" using e by (simp add: slice_append)
  then show ?case using 2(1) [OF c] e by simp
qed

lemma reconstruct_right:
  "contiguous i j ops la lb \<Longrightarrow>
     concat (map (\<lambda>(t, i1, i2, j1, j2). slice b j1 j2) ops) = slice b j lb"
proof (induction i j ops la lb rule: contiguous.induct)
  case (1 i j la lb)
  then show ?case by (simp add: slice_def)
next
  case (2 i j t i1 i2 j1 j2 ops la lb)
  then have c: "contiguous i2 j2 ops la lb" and e: "j1 = j" "j \<le> j2" by auto
  have "j2 \<le> lb" using contiguous_le [OF c] by simp
  then have "slice b j j2 @ slice b j2 lb = slice b j lb" using e by (simp add: slice_append)
  then show ?case using 2(1) [OF c] e by simp
qed

lemma get_opcodes_contiguous:
  "contiguous 0 0 (get_opcodes a b) (length a) (length b)"
proof -
  have "ends 0 0 (get_matching_blocks a b) = (length a, length b)"
    by (simp add: get_matching_blocks_def Let_def ends_snoc)
  then show ?thesis
    using opcodes_contiguous [OF get_matching_blocks_mono [of a b]]
    by (simp add: get_opcodes_def)
qed

text \<open>
  C8: for every pair of input sequences, the operations of the sequence aligner have
  ordered, contiguous, non-overlapping ranges (\<open>contiguous\<close>: the first operation starts
  at 0 on both sides, each operation starts where the previous one ends, no range is
  reversed, and the last one ends at the lengths of the sequences), and concatenating the
  left ranges in order gives back the left sequence, the right ranges the right sequence.
\<close>

theorem get_opcodes_reconstruct:
  "contiguous 0 0 (get_opcodes a b) (length a) (length b)
   \<and> concat (map (\<lambda>(tag, i1, i2, j1, j2). slice a i1 i2) (get_opcodes a b)) = a
   \<and> concat (map (\<lambda>(tag, i1, i2, j1, j2). slice b j1 j2) (get_opcodes a b)) = b"
  using get_opcodes_contiguous [of a b]
    reconstruct_left [OF get_opcodes_contiguous, of a a b]
    reconstruct_right [OF get_opcodes_contiguous, of b a b]
  by (simp add: slice_def)

subsection \<open>Equal opcodes\<close>









section \<open>Aligning a sequence with itself\<close>

definition np :: "'a list \<Rightarrow> 'a \<Rightarrow> bool" where
  "np a x = (chain_b a x \<noteq> None)"

lemma chain_b_np: "np a x \<Longrightarrow> chain_b a x = Some (positions a x)"
  unfolding np_def chain_b_eq by (simp split: if_splits)

lemma chain_b_not_np: "\<not> np a x \<Longrightarrow> chain_b a x = None"
  by (simp add: np_def)

lemma positions_set: "j \<in> set (positions a x) \<longleftrightarrow> j < length a \<and> a ! j = x"
  by (auto simp: positions_def)

lemma positions_sorted: "sorted_wrt (<) (positions a x)"
  unfolding positions_def by (rule sorted_wrt_filter) (simp add: sorted_wrt_upt)

definition run :: "'a list \<Rightarrow> nat \<Rightarrow> nat \<Rightarrow> bool" where
  "run a i k = (\<exists>s. s + k = i + 1 \<and> (\<forall>t<k. np a (a ! (s + t))))"

definition ending :: "'a list \<Rightarrow> nat \<Rightarrow> nat \<Rightarrow> nat \<Rightarrow> bool" where
  "ending a i j k =
     (\<exists>si sj. si + k = i + 1 \<and> sj + k = j + 1
        \<and> (\<forall>t<k. np a (a ! (si + t)) \<and> a ! (si + t) = a ! (sj + t)))"

definition entries_ok :: "'a list \<Rightarrow> nat \<Rightarrow> (nat \<rightharpoonup> nat) \<Rightarrow> bool" where
  "entries_ok a i m = (\<forall>j v. m j = Some v \<longrightarrow> 1 \<le> v \<and> ending a i j v)"

definition diag_ok :: "'a list \<Rightarrow> nat \<Rightarrow> (nat \<rightharpoonup> nat) \<Rightarrow> bool" where
  "diag_ok a i m = (\<forall>k. 1 \<le> k \<and> run a i k \<longrightarrow> (\<exists>v. m i = Some v \<and> k \<le> v))"

definition prev_ok :: "'a list \<Rightarrow> nat \<Rightarrow> (nat \<rightharpoonup> nat) \<Rightarrow> bool" where
  "prev_ok a i prev =
     ((i = 0 \<and> prev = Map.empty) \<or> (0 < i \<and> entries_ok a (i - 1) prev \<and> diag_ok a (i - 1) prev))"

definition cover :: "'a list \<Rightarrow> nat \<Rightarrow> match \<Rightarrow> bool" where
  "cover a i best = (case best of (bi, bj, bs) \<Rightarrow> \<forall>k. run a i k \<longrightarrow> k \<le> bs)"

definition best_diag :: "'a list \<Rightarrow> nat \<Rightarrow> match \<Rightarrow> bool" where
  "best_diag a i best = (case best of (bi, bj, bs) \<Rightarrow> bi = bj \<and> (\<forall>i'<i. cover a i' best))"

definition k_of :: "(nat \<rightharpoonup> nat) \<Rightarrow> nat \<Rightarrow> nat" where
  "k_of prev j = (case (if j = 0 then None else prev (j - 1)) of None \<Rightarrow> 0 | Some v \<Rightarrow> v) + 1"

lemma ending_run_left: "ending a i j k \<Longrightarrow> run a i k"
  unfolding ending_def run_def by blast

lemma ending_run_right:
  assumes "ending a i j k"
  shows "run a j k"
proof -
  obtain si sj where s: "si + k = i + 1" "sj + k = j + 1"
    and e: "\<forall>t<k. np a (a ! (si + t)) \<and> a ! (si + t) = a ! (sj + t)"
    using assms unfolding ending_def by blast
  have "\<forall>t<k. np a (a ! (sj + t))"
  proof (intro allI impI)
    fix t assume "t < k"
    then have "np a (a ! (si + t))" "a ! (si + t) = a ! (sj + t)" using e by auto
    then show "np a (a ! (sj + t))" by simp
  qed
  then show ?thesis unfolding run_def using s(2) by blast
qed

lemma ending_one: "np a (a ! i) \<Longrightarrow> a ! j = a ! i \<Longrightarrow> ending a i j 1"
  unfolding ending_def by (intro exI [of _ i] exI [of _ j]) simp

lemma ending_step:
  assumes "ending a i j v" "np a (a ! Suc i)" "a ! Suc j = a ! Suc i"
  shows "ending a (Suc i) (Suc j) (Suc v)"
proof -
  obtain si sj where s: "si + v = i + 1" "sj + v = j + 1"
    and e: "\<forall>t<v. np a (a ! (si + t)) \<and> a ! (si + t) = a ! (sj + t)"
    using assms(1) unfolding ending_def by blast
  have "np a (a ! (si + t)) \<and> a ! (si + t) = a ! (sj + t)" if "t < Suc v" for t
  proof (cases "t < v")
    case True
    then show ?thesis using e by blast
  next
    case False
    then have t: "t = v" using that by simp
    have "si + t = Suc i" "sj + t = Suc j" using s t by auto
    then show ?thesis using assms(2,3) by simp
  qed
  moreover have "si + Suc v = Suc i + 1" "sj + Suc v = Suc j + 1" using s by auto
  ultimately show ?thesis unfolding ending_def by blast
qed

lemma k_of_props:
  assumes "prev_ok a i prev" "a ! j = a ! i" "np a (a ! i)"
  shows "1 \<le> k_of prev j \<and> ending a i j (k_of prev j)"
proof (cases "if j = 0 then None else prev (j - 1)")
  case None
  then have "k_of prev j = 1" by (simp add: k_of_def)
  then show ?thesis using ending_one [OF assms(3,2)] by simp
next
  case (Some v)
  then have v: "prev (j - 1) = Some v" "j \<noteq> 0" by (auto split: if_splits)
  then have "prev \<noteq> Map.empty" by auto
  then have i: "0 < i" and e: "entries_ok a (i - 1) prev" using assms(1) by (auto simp: prev_ok_def)
  have p: "ending a (i - 1) (j - 1) v"
    using e [unfolded entries_ok_def, rule_format, OF v(1)] by simp
  have ij: "Suc (i - 1) = i" "Suc (j - 1) = j" using i v(2) by auto
  have "ending a (Suc (i - 1)) (Suc (j - 1)) (Suc v)"
    by (rule ending_step [OF p]) (simp_all only: ij assms)
  moreover have "k_of prev j = Suc v" using Some by (simp add: k_of_def)
  ultimately show ?thesis by (simp only: ij) simp
qed

lemma run_shorter:
  assumes "run a (Suc i) (Suc k)"
  shows "run a i k"
proof -
  obtain s where s: "s + Suc k = Suc i + 1" and e: "\<forall>t<Suc k. np a (a ! (s + t))"
    using assms unfolding run_def by blast
  have "s + k = i + 1" using s by simp
  moreover have "\<forall>t<k. np a (a ! (s + t))" using e by simp
  ultimately show ?thesis unfolding run_def by blast
qed

lemma run_zero_row: "run a 0 k \<Longrightarrow> k \<le> 1"
  by (auto simp: run_def)

lemma run_last: "run a i (Suc k) \<Longrightarrow> np a (a ! i)"
proof -
  assume "run a i (Suc k)"
  then obtain s where s: "s + Suc k = i + 1" and e: "\<forall>t<Suc k. np a (a ! (s + t))"
    unfolding run_def by blast
  have "s + k = i" using s by simp
  then show ?thesis using e by auto
qed

lemma k_of_diag:
  assumes "prev_ok a i prev" "run a i k"
  shows "k \<le> k_of prev i"
proof (cases k)
  case 0
  then show ?thesis by simp
next
  case (Suc k')
  note k = Suc
  show ?thesis
  proof (cases k')
    case 0
    then show ?thesis using k by (simp add: k_of_def)
  next
    case (Suc k'')
    have "i \<noteq> 0"
    proof
      assume "i = 0"
      then have "k \<le> 1" using run_zero_row [of a k] assms(2) by simp
      then show False using k Suc by simp
    qed
    then obtain i' where i: "i = Suc i'" by (cases i) auto
    have r: "run a i' k'" using assms(2) run_shorter unfolding i k by blast
    have "diag_ok a i' prev" using assms(1) i by (simp add: prev_ok_def)
    then obtain v where "prev i' = Some v" "k' \<le> v"
      using r Suc unfolding diag_ok_def by fastforce
    then show ?thesis using i k by (simp add: k_of_def)
  qed
qed

lemma sorted_head_notin:
  assumes "sorted_wrt (<) (j # js)" "i \<le> (j::nat)"
  shows "i \<notin> set js"
  using assms by auto

lemma inner_loop_diag:
  assumes prev: "prev_ok a i prev" and np: "np a (a ! i)"
    and js: "sorted_wrt (<) js" "\<forall>j \<in> set js. j < length a \<and> a ! j = a ! i"
    and new: "entries_ok a i new" and best: "best_diag a i best"
    and seen: "i \<in> set js \<or> (diag_ok a i new \<and> cover a i best)"
  shows "entries_ok a i (fst (inner_loop prev i 0 (length a) js (new, best)))
         \<and> diag_ok a i (fst (inner_loop prev i 0 (length a) js (new, best)))
         \<and> best_diag a i (snd (inner_loop prev i 0 (length a) js (new, best)))
         \<and> cover a i (snd (inner_loop prev i 0 (length a) js (new, best)))"
  using js new best seen
proof (induction js arbitrary: new best)
  case Nil
  then show ?case by simp
next
  case (Cons j js)
  obtain bi bj bs where b: "best = (bi, bj, bs)" by (cases best) auto
  have j: "j < length a" "a ! j = a ! i" using Cons.prems(2) by auto
  have js: "sorted_wrt (<) js" "\<forall>j \<in> set js. j < length a \<and> a ! j = a ! i"
    using Cons.prems(1,2) by auto
  define k where "k = k_of prev j"
  have kp: "1 \<le> k" "ending a i j k"
    using k_of_props [OF prev j(2) np] by (auto simp: k_def)
  have new': "entries_ok a i (new(j \<mapsto> k))"
    using Cons.prems(3) kp by (auto simp: entries_ok_def)
  have diag_i: "diag_ok a i (new(j \<mapsto> k)) \<and> (\<forall>k'. run a i k' \<longrightarrow> k' \<le> k)" if "j = i"
    using k_of_diag [OF prev] that by (auto simp: diag_ok_def k_def)
  have old: "diag_ok a i new \<and> cover a i best" if "i \<notin> set (j # js)"
    using Cons.prems(5) that by blast
  show ?case
  proof (cases "k > bs")
    case True
    have ji: "j = i"
    proof (rule ccontr)
      assume ne: "j \<noteq> i"
      show False
      proof (cases "j < i")
        case True
        have "run a j k" using ending_run_right [OF kp(2)] .
        then have "k \<le> bs" using Cons.prems(4) True b by (auto simp: best_diag_def cover_def)
        then show False using \<open>k > bs\<close> by simp
      next
        case False
        then have "i \<notin> set (j # js)" using sorted_head_notin [OF Cons.prems(1), of i] ne by auto
        then have "cover a i best" using old by blast
        moreover have "run a i k" using ending_run_left [OF kp(2)] .
        ultimately have "k \<le> bs" using b by (auto simp: cover_def)
        then show False using \<open>k > bs\<close> by simp
      qed
    qed
    let ?best = "(i + 1 - k, j + 1 - k, k)"
    have eq: "inner_loop prev i 0 (length a) (j # js) (new, best)
              = inner_loop prev i 0 (length a) js (new(j \<mapsto> k), ?best)"
      using True j(1) b by (simp add: k_def k_of_def Let_def)
    have bd: "best_diag a i ?best"
      using Cons.prems(4) True b ji by (fastforce simp: best_diag_def cover_def)
    have sn: "i \<in> set js \<or> (diag_ok a i (new(j \<mapsto> k)) \<and> cover a i ?best)"
      using diag_i [OF ji] by (auto simp: cover_def)
    show ?thesis unfolding eq by (rule Cons.IH [OF js new' bd sn])
  next
    case False
    have eq: "inner_loop prev i 0 (length a) (j # js) (new, best)
              = inner_loop prev i 0 (length a) js (new(j \<mapsto> k), best)"
      using False j(1) b by (simp add: k_def k_of_def Let_def)
    have sn: "i \<in> set js \<or> (diag_ok a i (new(j \<mapsto> k)) \<and> cover a i best)"
    proof (cases "i \<in> set js")
      case True
      then show ?thesis by simp
    next
      case nin: False
      show ?thesis
      proof (cases "j = i")
        case True
        then show ?thesis using diag_i [OF True] False b by (auto simp: cover_def)
      next
        case ne: False
        then have "diag_ok a i new \<and> cover a i best" using old nin by auto
        then show ?thesis using ne by (auto simp: diag_ok_def)
      qed
    qed
    show ?thesis unfolding eq by (rule Cons.IH [OF js new' Cons.prems(4) sn])
  qed
qed

lemma row_diag:
  assumes "prev_ok a i (fst st)" "best_diag a i (snd st)" "i < length a"
  shows "prev_ok a (Suc i) (fst (row a (chain_b a) 0 (length a) st i))
         \<and> best_diag a (Suc i) (snd (row a (chain_b a) 0 (length a) st i))"
proof (cases "np a (a ! i)")
  case True
  let ?js = "positions a (a ! i)"
  let ?r = "inner_loop (fst st) i 0 (length a) ?js (Map.empty, snd st)"
  have r: "row a (chain_b a) 0 (length a) st i = ?r"
    by (simp add: row_def chain_b_np [OF True])
  have "entries_ok a i (fst ?r) \<and> diag_ok a i (fst ?r) \<and> best_diag a i (snd ?r) \<and> cover a i (snd ?r)"
  proof (rule inner_loop_diag [OF assms(1) True positions_sorted _ _ assms(2)])
    show "\<forall>j\<in>set ?js. j < length a \<and> a ! j = a ! i" by (simp add: positions_set)
    show "entries_ok a i Map.empty" by (simp add: entries_ok_def)
    show "i \<in> set ?js \<or> diag_ok a i Map.empty \<and> cover a i (snd st)"
      using assms(3) by (simp add: positions_set)
  qed
  then show ?thesis unfolding r
    by (cases "snd ?r") (auto simp: prev_ok_def best_diag_def less_Suc_eq)
next
  case False
  have r: "row a (chain_b a) 0 (length a) st i = (Map.empty, snd st)"
    by (simp add: row_def chain_b_not_np [OF False])
  have none: "\<not> run a i (Suc k)" for k using run_last False by blast
  have "k = 0" if "run a i k" for k using that none by (cases k) auto
  then have c: "cover a i (snd st)" by (cases "snd st") (auto simp: cover_def)
  have d: "diag_ok a i Map.empty"
    unfolding diag_ok_def using none by (metis Suc_le_D One_nat_def)
  show ?thesis unfolding r using assms(2) c d
    by (cases "snd st") (auto simp: prev_ok_def best_diag_def less_Suc_eq entries_ok_def)
qed

lemma rows_diag:
  assumes "prev_ok a i (fst st)" "best_diag a i (snd st)" "i \<le> length a"
  shows "best_diag a (length a) (snd (foldl (row a (chain_b a) 0 (length a)) st [i..<length a]))"
  using assms
proof (induction "length a - i" arbitrary: i st)
  case 0
  then show ?case by simp
next
  case (Suc n)
  then have lt: "i < length a" by simp
  have n: "n = length a - Suc i" using Suc.hyps(2) by simp
  have r: "prev_ok a (Suc i) (fst (row a (chain_b a) 0 (length a) st i))
         \<and> best_diag a (Suc i) (snd (row a (chain_b a) 0 (length a) st i))"
    by (rule row_diag [OF Suc.prems(1) Suc.prems(2) lt])
  have "best_diag a (length a)
         (snd (foldl (row a (chain_b a) 0 (length a)) (row a (chain_b a) 0 (length a) st i)
                [Suc i..<length a]))"
    by (rule Suc.hyps(1) [OF n]) (use r lt in simp_all)
  moreover have "[i..<length a] = i # [Suc i..<length a]" using lt by (simp add: upt_conv_Cons)
  ultimately show ?case by simp
qed

lemma main_loop_diag:
  "fst (snd (main_loop a (chain_b a) 0 (length a) 0 (length a)))
   = fst (snd (snd (main_loop a (chain_b a) 0 (length a) 0 (length a))))"
proof -
  have "best_diag a (length a) (snd (main_loop a (chain_b a) 0 (length a) 0 (length a)))"
    unfolding main_loop_def
    by (rule rows_diag) (simp_all add: prev_ok_def best_diag_def)
  then show ?thesis
    by (cases "snd (main_loop a (chain_b a) 0 (length a) 0 (length a))") (simp add: best_diag_def)
qed

lemma extend_left_diag: "extend_left a a False 0 0 (d, d, s) = (0, 0, s + d)"
proof (induction d arbitrary: s)
  case 0
  then show ?case by (subst extend_left.simps) simp
next
  case (Suc d)
  have "extend_left a a False 0 0 (Suc d, Suc d, s) = extend_left a a False 0 0 (d, d, s + 1)"
    by (subst extend_left.simps) (simp add: isbjunk_def)
  then show ?case using Suc [of "s + 1"] by simp
qed

lemma extend_right_diag: "s \<le> n \<Longrightarrow> extend_right a a False n n (0, 0, s) = (0, 0, n)"
proof (induction "n - s" arbitrary: s)
  case 0
  then show ?case by (subst extend_right.simps) simp
next
  case (Suc m)
  then have lt: "s < n" by simp
  have "extend_right a a False n n (0, 0, s) = extend_right a a False n n (0, 0, s + 1)"
    using lt by (subst extend_right.simps) (simp add: isbjunk_def)
  moreover have "extend_right a a False n n (0, 0, s + 1) = (0, 0, n)"
    by (rule Suc.hyps(1)) (use Suc.hyps(2) lt in simp_all)
  ultimately show ?case by simp
qed

lemma extend_left_junk: "extend_left a b True alo blo m = m"
  by (cases m) (simp add: extend_left.simps [of a b True] isbjunk_def)

lemma extend_right_junk: "extend_right a b True ahi bhi m = m"
  by (cases m) (simp add: extend_right.simps [of a b True] isbjunk_def)

lemma find_longest_match_same:
  "find_longest_match a a (chain_b a) 0 (length a) 0 (length a) = (0, 0, length a)"
proof -
  let ?m = "snd (main_loop a (chain_b a) 0 (length a) 0 (length a))"
  obtain d d' s where m: "?m = (d, d', s)" by (cases ?m) auto
  have d: "d' = d" using main_loop_diag [of a] m by simp
  have "best_ok 0 (length a) 0 (length a) ?m" by (rule main_loop_ok)
  then have le: "s + d \<le> length a" using m by (cases "s = 0") (auto simp: best_ok_def)
  show ?thesis
    unfolding find_longest_match_def m d
    by (simp add: extend_left_diag extend_right_diag [OF le] extend_left_junk extend_right_junk)
qed

lemma get_opcodes_same:
  "get_opcodes a a = (if a = [] then [] else [(Equal, 0, length a, 0, length a)])"
proof (cases "a = []")
  case True
  have "queue_loop a a (chain_b a) [(0, length a, 0, length a)] [] = []"
    using find_longest_match_same [of a] True by (simp add: queue_loop.simps)
  then show ?thesis using True by (simp add: get_opcodes_def get_matching_blocks_def)
next
  case False
  have "queue_loop a a (chain_b a) [(0, length a, 0, length a)] [] = [(0, 0, length a)]"
    using find_longest_match_same [of a] False by (simp add: queue_loop.simps)
  then show ?thesis using False by (simp add: get_opcodes_def get_matching_blocks_def Let_def)
qed

section \<open>Properties of word classification\<close>



section \<open>Properties of wrapping and padding of rows\<close>













section \<open>Rendering, expansion and whole-program properties\<close>







lemma positional_pairs_Cons:
  "positional_pairs (x # xs) (y # ys) = (x, y) # positional_pairs xs ys"
  "positional_pairs (x # xs) [] = (x, []) # positional_pairs xs []"
  "positional_pairs [] (y # ys) = ([], y) # positional_pairs [] ys"
  "positional_pairs [] [] = []"
  unfolding positional_pairs_def
  by (simp_all add: upt_conv_Cons map_Suc_upt [symmetric] del: upt_Suc)

lemma zip_longest_positional: "zip_longest xs ys = positional_pairs xs ys"
  by (induction xs ys rule: zip_longest.induct) (simp_all add: positional_pairs_Cons)

lemma pair_loop_forward:
  "pair_loop classify pairs diff_output
   = forward_all classify (filter (\<lambda>(l, r). \<not> (strip l = [] \<and> strip r = [])) pairs) diff_output"
proof (induction classify pairs diff_output rule: pair_loop.induct)
  case (1 render diff_output)
  then show ?case by simp
next
  case (2 render orig modified pairs diff_output)
  then show ?case by (cases "render orig modified") auto
qed

text \<open>
  C7: for a line-level operation tagged replace, insert or delete, the expander pairs the
  left and right lines positionally, with the empty string for the missing side when
  the ranges differ in length, forwards to word classification every pair that is not
  empty or whitespace-only on both sides, in order, and forwards no other pair; for an
  operation tagged equal it forwards nothing.
\<close>

theorem expander_pairs:
  "opcode_loop classify orig_lines modified_lines ((tag, i1, i2, j1, j2) # opcodes) diff_output =
     (if tag = Equal then opcode_loop classify orig_lines modified_lines opcodes diff_output
      else (case forward_all classify
                   (forwarded_pairs (slice orig_lines i1 i2) (slice modified_lines j1 j2))
                   diff_output of
              Inl e \<Rightarrow> Inl e
            | Inr diff_output' \<Rightarrow>
                opcode_loop classify orig_lines modified_lines opcodes diff_output'))"
  by (simp add: pair_loop_forward zip_longest_positional forwarded_pairs_def)

lemma diff_loop_same:
  "diff_loop colored colors color underline fixed_width lines lines diff_output = Inr diff_output"
  by (simp add: diff_loop_def get_opcodes_same)

text \<open>
  C5: when the preprocessed line sequences of the two input files are identical, a run
  that produces output produces the header row and nothing else: no diff row is emitted.
\<close>

theorem identical_files_no_rows:
  assumes "preprocess_file (files e) (file1 a) = Some lines"
    and "preprocess_file (files e) (file2 a) = Some lines"
    and "main e a = Inr (Output out)"
  shows "\<exists>header. out = [header]"
  using assms
  by (auto simp: main_def bind_def Let_def diff_loop_same split: sum.splits)

theorem identical_files_no_rows_witness:
  "preprocess_file (files (example_env Map.empty)) (file1 (example_args (PStr ''A,B'')))
     = Some [''the cat sat'', ''on the mat'']
   \<and> preprocess_file (files (example_env Map.empty)) (file2 (example_args (PStr ''A,B'')))
     = Some [''the cat sat'', ''on the mat'']
   \<and> main (example_env Map.empty) (example_args (PStr ''A,B''))
     = Inr (Output [ESC # ''[4m    A     '' @ ESC # ''[0m | '' @ ESC # ''[4m    B     '' @ ESC # ''[0m''])
   \<and> (\<exists>header. [ESC # ''[4m    A     '' @ ESC # ''[0m | '' @ ESC # ''[4m    B     '' @ ESC # ''[0m'']
         = [header])"
proof -
  have 1: "preprocess_file (files (example_env Map.empty)) (file1 (example_args (PStr ''A,B'')))
     = Some [''the cat sat'', ''on the mat'']"
    by code_simp
  have 2: "preprocess_file (files (example_env Map.empty)) (file2 (example_args (PStr ''A,B'')))
     = Some [''the cat sat'', ''on the mat'']"
    by code_simp
  have 3: "main (example_env Map.empty) (example_args (PStr ''A,B''))
     = Inr (Output [ESC # ''[4m    A     '' @ ESC # ''[0m | '' @ ESC # ''[4m    B     '' @ ESC # ''[0m''])"
    by code_simp
  show ?thesis using identical_files_no_rows [OF 1 2 3] 1 2 3 by blast
qed

text \<open>Without header titles no run completes, whatever the other inputs are.\<close>

lemma no_header_titles_never_completes:
  assumes "arg_header_titles a = PNone" "config e ''header_titles'' = None"
  shows "\<exists>err. main e a = Inl err"
proof -
  have "get_config_value (int_fn e) (config e) ''header_titles'' (arg_header_titles a) PNone = Inr PNone"
    using assms by (simp add: get_config_value_def)
  then show ?thesis
    by (auto simp: main_def bind_def split: sum.splits)
qed

text \<open>
  C1 fails on the code: a run without header titles (none on the command line, none in
  the configuration file) does not complete. Line 136 calls \<open>parse\<close> on \<open>None\<close>, which
  raises \<open>AttributeError\<close> before the files are read.
\<close>

theorem no_header_titles_aborts:
  "main (example_env Map.empty) (example_args PNone) = Inl AttributeError"
  by code_simp

text \<open>Resolving \<open>fixed_width\<close> never raises; resolving a Boolean option from the
  configuration file raises whenever \<open>getboolean\<close> does.\<close>

lemma fixed_width_never_raises:
  "\<exists>v. get_config_value py_int cfg ''fixed_width'' command_line_arg dflt = Inr v"
  by (simp add: get_config_value_def split: option.splits)

lemma boolean_option_raises:
  assumes "key = ''color'' \<or> key = ''underline''" "cfg key = Some v" "getboolean v = Inl err"
  shows "get_config_value py_int cfg key PNone dflt = Inl err"
  using assms by (auto simp: get_config_value_def)

text \<open>
  C4 fails on the code for the Boolean options: a malformed value of \<open>color\<close> in the
  configuration file raises \<open>ValueError\<close> in \<open>getboolean\<close>, which nothing catches, and the
  run aborts; an invalid \<open>fixed_width\<close> falls back to the default, as the claim says.
\<close>

theorem malformed_boolean_aborts:
  "get_config_value (\<lambda>s. None) [''color'' \<mapsto> ''maybe''] ''color'' PNone (PBool True) = Inl ValueError
   \<and> main (example_env [''color'' \<mapsto> ''maybe'']) (example_args (PStr ''A,B'')) = Inl ValueError
   \<and> get_config_value (\<lambda>s. None) [''fixed_width'' \<mapsto> ''wide''] ''fixed_width'' PNone PNone = Inr PNone"
  by code_simp

end
